theory Spec2Isabelle
  imports Complex_Main "HOL-Library.Word" "HOL-Library.Log_Nat" "HOL-Library.Sublist"
    "HOL-Library.Multiset"
begin

section \<open>The expense tracker page (HomePage)\<close>

text \<open>
  The page component keeps a list of expenses in React state, adds to it from a form,
  deletes from it by id, shows the expenses of one day sorted by numeric id together with
  their total, and mirrors the list into one localStorage slot as JSON.

  The embedding follows the TypeScript source function by function. The values of the
  platform are modelled explicitly:
  \<^item> a JavaScript string is its sequence of UTF-16 code units;
  \<^item> a JavaScript number is an IEEE 754 double: NaN, the two infinities, or a finite
    value given as the rational it denotes. Every arithmetic operation computes the exact
    rational result and rounds it to the nearest double, ties to even, as IEEE 754 and
    ECMA-262 prescribe. The negative zero is identified with zero: no operation of this
    program tells them apart (\<open>-0 <= 0\<close>, \<open>-0 === 0\<close>, \<open>JSON.stringify(-0)\<close> is \<open>"0"\<close>).
\<close>

subsection \<open>Strings\<close>

type_synonym jsstring = "16 word list"

text \<open>A string literal of the source, as code units.\<close>

definition lit :: "string \<Rightarrow> jsstring" where
  "lit s = map of_char s"

text \<open>
  White space and line terminators of ECMA-262 (WhiteSpace and LineTerminator): the
  characters removed by \<open>String.prototype.trim\<close> and skipped by \<open>parseFloat\<close> and
  \<open>Number\<close>.
\<close>

definition is_white_space :: "16 word \<Rightarrow> bool" where
  "is_white_space c \<longleftrightarrow>
     c \<in> set [0x9, 0xA, 0xB, 0xC, 0xD, 0x20, 0xA0, 0x1680, 0x2028, 0x2029, 0x202F,
               0x205F, 0x3000, 0xFEFF]
     \<or> (0x2000 \<le> c \<and> c \<le> 0x200A)"

definition trim_start :: "jsstring \<Rightarrow> jsstring" where
  "trim_start s = dropWhile is_white_space s"

definition trim_end :: "jsstring \<Rightarrow> jsstring" where
  "trim_end s = rev (dropWhile is_white_space (rev s))"

text \<open>\<open>s.trim()\<close>\<close>

definition String_trim :: "jsstring \<Rightarrow> jsstring" where
  "String_trim s = trim_end (trim_start s)"

subsection \<open>Numbers\<close>

datatype jsnum = NaN | PInf | NInf | Fin rat

text \<open>Round a rational to the nearest integer, ties to the even one.\<close>

definition round_even :: "rat \<Rightarrow> int" where
  "round_even r =
     (let f = \<lfloor>r\<rfloor>; d = r - of_int f
      in if d < 1 / 2 then f else if 1 / 2 < d then f + 1 else if even f then f else f + 1)"

text \<open>Powers with an integer exponent, negative ones included.\<close>

definition ipow :: "rat \<Rightarrow> int \<Rightarrow> rat" where
  "ipow b e = b powi e"

text \<open>The binary exponent of a positive rational: \<open>2 ^ ilog2 x \<le> x < 2 ^ (ilog2 x + 1)\<close>.\<close>

definition ilog2 :: "rat \<Rightarrow> int" where
  "ilog2 x =
     (let (a, b) = quotient_of x; e0 = bitlen a - bitlen b
      in if ipow 2 e0 \<le> x then e0 else e0 - 1)"

text \<open>
  Rounding to double precision. With \<open>e\<close> the binary exponent of \<open>x\<close>, at least \<open>-1022\<close>
  (below it the spacing stays \<open>2 ^ -1074\<close>, the subnormal numbers), the doubles around
  \<open>x\<close> are the multiples \<open>n * 2 ^ (e - 52)\<close>, and \<open>x\<close> goes to the nearest one, to the even
  \<open>n\<close> at a tie. The result overflows to an infinity when it reaches \<open>2 ^ 1024\<close>: when
  \<open>e\<close> is 1024 or more, or \<open>e\<close> is 1023 and \<open>n\<close> was rounded up to \<open>2 ^ 53\<close>.
\<close>

definition to_double :: "rat \<Rightarrow> jsnum" where
  "to_double x =
     (if x = 0 then Fin 0
      else
        let e = max (ilog2 \<bar>x\<bar>) (- 1022);
            q = ipow 2 (e - 52);
            n = round_even (x / q)
        in if 1024 \<le> e \<or> (e = 1023 \<and> 2 ^ 53 \<le> \<bar>n\<bar>)
           then (if 0 < x then PInf else NInf)
           else Fin (of_int n * q))"

text \<open>\<open>isFinite(x)\<close> on a number.\<close>

fun isFinite :: "jsnum \<Rightarrow> bool" where
  "isFinite (Fin a) = True"
| "isFinite x = False"

text \<open>\<open>x < y\<close> and \<open>x <= y\<close>: false as soon as one side is NaN.\<close>

fun js_lt :: "jsnum \<Rightarrow> jsnum \<Rightarrow> bool" where
  "js_lt NaN y = False"
| "js_lt x NaN = False"
| "js_lt PInf y = False"
| "js_lt x NInf = False"
| "js_lt NInf y = True"
| "js_lt x PInf = True"
| "js_lt (Fin a) (Fin b) = (a < b)"

fun js_le :: "jsnum \<Rightarrow> jsnum \<Rightarrow> bool" where
  "js_le NaN y = False"
| "js_le x NaN = False"
| "js_le NInf y = True"
| "js_le x PInf = True"
| "js_le PInf y = False"
| "js_le x NInf = False"
| "js_le (Fin a) (Fin b) = (a \<le> b)"

fun jneg :: "jsnum \<Rightarrow> jsnum" where
  "jneg NaN = NaN"
| "jneg PInf = NInf"
| "jneg NInf = PInf"
| "jneg (Fin a) = Fin (- a)"

text \<open>An infinity times (or a non-zero number over zero with) a factor of the given sign.\<close>

definition inf_times :: "rat \<Rightarrow> jsnum" where
  "inf_times r = (if r = 0 then NaN else if 0 < r then PInf else NInf)"

text \<open>\<open>x + y\<close>\<close>

fun jadd :: "jsnum \<Rightarrow> jsnum \<Rightarrow> jsnum" where
  "jadd NaN y = NaN"
| "jadd x NaN = NaN"
| "jadd PInf NInf = NaN"
| "jadd NInf PInf = NaN"
| "jadd PInf y = PInf"
| "jadd NInf y = NInf"
| "jadd x PInf = PInf"
| "jadd x NInf = NInf"
| "jadd (Fin a) (Fin b) = to_double (a + b)"

text \<open>\<open>x - y\<close>\<close>

definition jsub :: "jsnum \<Rightarrow> jsnum \<Rightarrow> jsnum" where
  "jsub x y = jadd x (jneg y)"

text \<open>\<open>x * y\<close>\<close>

fun jmul :: "jsnum \<Rightarrow> jsnum \<Rightarrow> jsnum" where
  "jmul NaN y = NaN"
| "jmul x NaN = NaN"
| "jmul PInf PInf = PInf"
| "jmul PInf NInf = NInf"
| "jmul NInf PInf = NInf"
| "jmul NInf NInf = PInf"
| "jmul PInf (Fin b) = inf_times b"
| "jmul NInf (Fin b) = inf_times (- b)"
| "jmul (Fin a) PInf = inf_times a"
| "jmul (Fin a) NInf = inf_times (- a)"
| "jmul (Fin a) (Fin b) = to_double (a * b)"

text \<open>\<open>x / y\<close>; a zero divisor is taken as the positive zero.\<close>

fun jdiv :: "jsnum \<Rightarrow> jsnum \<Rightarrow> jsnum" where
  "jdiv NaN y = NaN"
| "jdiv x NaN = NaN"
| "jdiv (Fin a) (Fin b) = (if b = 0 then inf_times a else to_double (a / b))"
| "jdiv (Fin a) y = Fin 0"
| "jdiv PInf (Fin b) = (if b < 0 then NInf else PInf)"
| "jdiv NInf (Fin b) = (if b < 0 then PInf else NInf)"
| "jdiv x y = NaN"

text \<open>
  \<open>Math.round(x)\<close>: the integer nearest to \<open>x\<close>, the larger one at a tie. The result of
  rounding a double is a double again, so no second rounding takes place.
\<close>

fun Math_round :: "jsnum \<Rightarrow> jsnum" where
  "Math_round (Fin a) = Fin (of_int \<lfloor>a + 1 / 2\<rfloor>)"
| "Math_round x = x"

subsection \<open>Numeric strings\<close>

definition is_digit :: "16 word \<Rightarrow> bool" where
  "is_digit c \<longleftrightarrow> 0x30 \<le> c \<and> c \<le> 0x39"

definition digit_val :: "16 word \<Rightarrow> int" where
  "digit_val c = uint c - 48"

text \<open>The value of a string of decimal digits (0 for the empty string).\<close>

definition digits_val :: "jsstring \<Rightarrow> int" where
  "digits_val ds = foldl (\<lambda>acc c. 10 * acc + digit_val c) 0 ds"

text \<open>An optional sign: whether it is a minus, and the rest of the string.\<close>

fun take_sign :: "jsstring \<Rightarrow> bool \<times> jsstring" where
  "take_sign [] = (False, [])"
| "take_sign (c # cs) =
     (if c = 0x2D then (True, cs) else if c = 0x2B then (False, cs) else (False, c # cs))"

text \<open>
  ExponentPart: \<open>e\<close> or \<open>E\<close>, an optional sign and at least one digit. Returns the exponent
  and the rest; without a well-formed exponent part the exponent is 0 and nothing is
  consumed.
\<close>

definition exponent_part :: "jsstring \<Rightarrow> int \<times> jsstring" where
  "exponent_part s =
     (case s of
        [] \<Rightarrow> (0, s)
      | c # cs \<Rightarrow>
          if c = 0x65 \<or> c = 0x45 then
            (let (neg, t) = take_sign cs; ds = takeWhile is_digit t
             in if ds = [] then (0, s)
                else ((if neg then - digits_val ds else digits_val ds),
                      dropWhile is_digit t))
          else (0, s))"

text \<open>
  The longest prefix of a string that is a StrDecimalLiteral
  (\<open>[+-]? (Infinity | digits [. digits?] exponent? | . digits exponent?)\<close>): its numeric
  value, rounded to a double, and the rest of the string. \<open>None\<close> when no prefix is one.
\<close>

definition str_decimal_literal :: "jsstring \<Rightarrow> (jsnum \<times> jsstring) option" where
  "str_decimal_literal s =
     (let (neg, s1) = take_sign s
      in if prefix (lit ''Infinity'') s1 then Some ((if neg then NInf else PInf), drop 8 s1)
         else
           let ip = takeWhile is_digit s1;
               r1 = dropWhile is_digit s1;
               (fp, r2) = (case r1 of
                             [] \<Rightarrow> ([], r1)
                           | c # cs \<Rightarrow>
                               if c = 0x2E \<and> (ip \<noteq> [] \<or> takeWhile is_digit cs \<noteq> [])
                               then (takeWhile is_digit cs, dropWhile is_digit cs)
                               else ([], r1))
           in if ip = [] \<and> fp = [] then None
              else
                let (ex, r3) = exponent_part r2;
                    m = of_int (digits_val (ip @ fp)) / 10 ^ length fp * ipow 10 ex
                in Some (to_double (if neg then - m else m), r3))"

text \<open>\<open>parseFloat(s)\<close>: skips leading white space and reads the longest decimal literal.\<close>

definition parseFloat :: "jsstring \<Rightarrow> jsnum" where
  "parseFloat s =
     (case str_decimal_literal (trim_start s) of
        None \<Rightarrow> NaN
      | Some (v, rest) \<Rightarrow> v)"

text \<open>Digits of the binary, octal and hexadecimal integer literals.\<close>

definition radix_digit :: "16 word \<Rightarrow> int option" where
  "radix_digit c =
     (if 0x30 \<le> c \<and> c \<le> 0x39 then Some (uint c - 48)
      else if 0x61 \<le> c \<and> c \<le> 0x66 then Some (uint c - 87)
      else if 0x41 \<le> c \<and> c \<le> 0x46 then Some (uint c - 55)
      else None)"

definition radix_val :: "int \<Rightarrow> jsstring \<Rightarrow> int option" where
  "radix_val b ds =
     (if ds \<noteq> [] \<and> (\<forall>c \<in> set ds. case radix_digit c of None \<Rightarrow> False | Some d \<Rightarrow> d < b)
      then Some (foldl (\<lambda>acc c. b * acc + the (radix_digit c)) 0 ds)
      else None)"

text \<open>NonDecimalIntegerLiteral: \<open>0b\<close>, \<open>0o\<close> or \<open>0x\<close> (either case) and digits of that radix.\<close>

definition non_decimal_literal :: "jsstring \<Rightarrow> int option" where
  "non_decimal_literal s =
     (case s of
        z # p # ds \<Rightarrow>
          if z \<noteq> 0x30 then None
          else if p = 0x62 \<or> p = 0x42 then radix_val 2 ds
          else if p = 0x6F \<or> p = 0x4F then radix_val 8 ds
          else if p = 0x78 \<or> p = 0x58 then radix_val 16 ds
          else None
      | _ \<Rightarrow> None)"

text \<open>
  \<open>Number(s)\<close> on a string: white space is trimmed on both sides, the empty string is 0,
  and the whole rest must be one numeric literal; otherwise NaN.
\<close>

definition Number :: "jsstring \<Rightarrow> jsnum" where
  "Number s =
     (let t = String_trim s
      in if t = [] then Fin 0
         else case non_decimal_literal t of
                Some n \<Rightarrow> to_double (of_int n)
              | None \<Rightarrow>
                  (case str_decimal_literal t of
                     Some (v, []) \<Rightarrow> v
                   | _ \<Rightarrow> NaN))"

text \<open>
  \<open>String(Date.now())\<close>. \<open>Date.now()\<close> is an integral time value (milliseconds since the
  epoch, at most \<open>8.64e15\<close> in magnitude), which \<open>String\<close> prints in plain decimal
  notation with a minus sign when negative.
\<close>

function decimal_digits :: "int \<Rightarrow> jsstring" where
  "decimal_digits n =
     (if n < 10 then [of_int (48 + n)]
      else decimal_digits (n div 10) @ [of_int (48 + n mod 10)])"
  by pat_completeness auto
termination
  by (relation "measure nat") auto

declare decimal_digits.simps [simp del]

definition String_of_time :: "int \<Rightarrow> jsstring" where
  "String_of_time t = (if t < 0 then 0x2D # decimal_digits (- t) else decimal_digits t)"

subsection \<open>The expense list and the page state\<close>

text \<open>\<open>type Expense = { id; date; amount; category; note }\<close>\<close>

record Expense =
  id' :: jsstring
  date :: jsstring
  amount :: jsnum
  category :: jsstring
  note' :: jsstring

text \<open>
  The state of \<open>HomePage\<close>: the expenses, the selected date, and the four form fields
  \<open>amount\<close>, \<open>category\<close>, \<open>note\<close> and \<open>date\<close> (prefixed here with \<open>form\<close>).
\<close>

record page =
  expenses :: "Expense list"
  selectedDate :: jsstring
  form_amount :: jsstring
  form_category :: jsstring
  form_note :: jsstring
  form_date :: jsstring

text \<open>The initial state; \<open>today\<close> is what \<open>todayIsoDate()\<close> returned.\<close>

definition initial_page :: "jsstring \<Rightarrow> page" where
  "initial_page today =
     \<lparr>expenses = [], selectedDate = today, form_amount = [], form_category = lit ''General'',
      form_note = [], form_date = today\<rparr>"

text \<open>\<open>resetForm()\<close>: the date field goes back to the selected date the handler started with.\<close>

definition resetForm :: "jsstring \<Rightarrow> page \<Rightarrow> page" where
  "resetForm selected st =
     st\<lparr>form_amount := [], form_category := lit ''General'', form_note := [],
        form_date := selected\<rparr>"

text \<open>
  \<open>handleAdd(e)\<close>; \<open>now\<close> is the value of \<open>Date.now()\<close>. An amount that is not finite or
  not positive returns early and leaves the state as it is.
\<close>

definition handleAdd :: "int \<Rightarrow> page \<Rightarrow> page" where
  "handleAdd now st =
     (let parsedAmount = parseFloat (form_amount st)
      in if \<not> isFinite parsedAmount \<or> js_le parsedAmount (Fin 0) then st
         else
           let newExpense =
                 \<lparr>id' = String_of_time now,
                  date = form_date st,
                  amount = jdiv (Math_round (jmul parsedAmount (Fin 100))) (Fin 100),
                  category = (if String_trim (form_category st) = [] then lit ''General''
                              else String_trim (form_category st)),
                  note' = String_trim (form_note st)\<rparr>
           in resetForm (selectedDate st)
                (st\<lparr>expenses := newExpense # expenses st,
                    selectedDate := (if form_date st = selectedDate st then selectedDate st
                                     else form_date st)\<rparr>))"

text \<open>\<open>handleDelete(id)\<close>\<close>

definition handleDelete :: "jsstring \<Rightarrow> page \<Rightarrow> page" where
  "handleDelete i st = st\<lparr>expenses := filter (\<lambda>e. id' e \<noteq> i) (expenses st)\<rparr>"

text \<open>
  The events of the page: the change handlers of the inputs, the submission of the form
  (with the clock reading) and the delete buttons.
\<close>

datatype event =
    SelectDate jsstring
  | SetDate jsstring
  | SetAmount jsstring
  | SetCategory jsstring
  | SetNote jsstring
  | Submit int
  | Delete jsstring

fun handle :: "event \<Rightarrow> page \<Rightarrow> page" where
  "handle (SelectDate d) st = st\<lparr>selectedDate := d, form_date := d\<rparr>"
| "handle (SetDate d) st = st\<lparr>form_date := d\<rparr>"
| "handle (SetAmount a) st = st\<lparr>form_amount := a\<rparr>"
| "handle (SetCategory c) st = st\<lparr>form_category := c\<rparr>"
| "handle (SetNote n) st = st\<lparr>form_note := n\<rparr>"
| "handle (Submit now) st = handleAdd now st"
| "handle (Delete i) st = handleDelete i st"

text \<open>The page after a sequence of events, the first event first.\<close>

definition run :: "event list \<Rightarrow> page \<Rightarrow> page" where
  "run evs st = foldl (\<lambda>s ev. handle ev s) st evs"

subsection \<open>The expenses of the selected date and their total\<close>

text \<open>
  \<open>Array.prototype.sort(cmp)\<close>: a stable sort. An element moves behind another one only
  when the comparison of the two is positive; a NaN counts as 0.
\<close>

fun insert_by :: "('a \<Rightarrow> 'a \<Rightarrow> jsnum) \<Rightarrow> 'a \<Rightarrow> 'a list \<Rightarrow> 'a list" where
  "insert_by cmp x [] = [x]"
| "insert_by cmp x (y # ys) =
     (if js_lt (Fin 0) (cmp x y) then y # insert_by cmp x ys else x # y # ys)"

definition Array_sort :: "('a \<Rightarrow> 'a \<Rightarrow> jsnum) \<Rightarrow> 'a list \<Rightarrow> 'a list" where
  "Array_sort cmp xs = foldr (insert_by cmp) xs []"

text \<open>The comparison \<open>(a, b) => Number(b.id) - Number(a.id)\<close>.\<close>

definition by_id_desc :: "Expense \<Rightarrow> Expense \<Rightarrow> jsnum" where
  "by_id_desc a b = jsub (Number (id' b)) (Number (id' a))"

text \<open>\<open>expensesForSelectedDate\<close>, as a function of the two values it is memoised on.\<close>

definition expensesForSelectedDate :: "Expense list \<Rightarrow> jsstring \<Rightarrow> Expense list" where
  "expensesForSelectedDate es selected =
     Array_sort by_id_desc (filter (\<lambda>e. date e = selected) es)"

text \<open>\<open>totalForSelectedDate\<close>: \<open>reduce((sum, e) => sum + e.amount, 0)\<close> over that list.\<close>

definition totalForSelectedDate :: "Expense list \<Rightarrow> jsnum" where
  "totalForSelectedDate es = foldl (\<lambda>sum e. jadd sum (amount e)) (Fin 0) es"

subsection \<open>Arrays in the heap\<close>

text \<open>
  \<open>filter\<close> returns a new array, \<open>sort\<close> sorts the array it is called on in place and
  returns it, \<open>reduce\<close> only reads. To see which array is written, the arrays live in a
  heap: the array at address \<open>a\<close> is the \<open>a\<close>-th entry, and a new array is appended. An
  address without an array gives \<open>None\<close> (a TypeError; the page never has one).
\<close>

type_synonym heap = "Expense list list"

definition array_at :: "heap \<Rightarrow> nat \<Rightarrow> Expense list option" where
  "array_at h a = (if a < length h then Some (h ! a) else None)"

definition Array_filter_h :: "(Expense \<Rightarrow> bool) \<Rightarrow> nat \<Rightarrow> heap \<Rightarrow> (nat \<times> heap) option" where
  "Array_filter_h p a h =
     (case array_at h a of
        None \<Rightarrow> None
      | Some xs \<Rightarrow> Some (length h, h @ [filter p xs]))"

definition Array_sort_h ::
  "(Expense \<Rightarrow> Expense \<Rightarrow> jsnum) \<Rightarrow> nat \<Rightarrow> heap \<Rightarrow> (nat \<times> heap) option" where
  "Array_sort_h cmp a h =
     (case array_at h a of
        None \<Rightarrow> None
      | Some xs \<Rightarrow> Some (a, h[a := Array_sort cmp xs]))"

definition Array_reduce_h ::
  "(jsnum \<Rightarrow> Expense \<Rightarrow> jsnum) \<Rightarrow> jsnum \<Rightarrow> nat \<Rightarrow> heap \<Rightarrow> (jsnum \<times> heap) option" where
  "Array_reduce_h f z a h =
     (case array_at h a of
        None \<Rightarrow> None
      | Some xs \<Rightarrow> Some (foldl f z xs, h))"

text \<open>\<open>expenses.filter(...).sort(...)\<close> on the array at address \<open>a\<close>.\<close>

definition expensesForSelectedDate_h :: "nat \<Rightarrow> jsstring \<Rightarrow> heap \<Rightarrow> (nat \<times> heap) option" where
  "expensesForSelectedDate_h a selected h =
     (case Array_filter_h (\<lambda>e. date e = selected) a h of
        None \<Rightarrow> None
      | Some (b, h1) \<Rightarrow> Array_sort_h by_id_desc b h1)"

text \<open>\<open>expensesForSelectedDate.reduce(...)\<close> on the array at address \<open>a\<close>.\<close>

definition totalForSelectedDate_h :: "nat \<Rightarrow> heap \<Rightarrow> (jsnum \<times> heap) option" where
  "totalForSelectedDate_h a h = Array_reduce_h (\<lambda>sum e. jadd sum (amount e)) (Fin 0) a h"

subsection \<open>Persistence\<close>

text \<open>
  The values \<open>JSON.parse\<close> can return. An expense object is the \<open>JObj\<close> of its five
  properties in the order the object literal of \<open>handleAdd\<close> lists them.
\<close>

datatype jsval =
    JNull
  | JBool bool
  | JNum jsnum
  | JStr jsstring
  | JArr "jsval list"
  | JObj "(jsstring \<times> jsval) list"

definition value_of_Expense :: "Expense \<Rightarrow> jsval" where
  "value_of_Expense e =
     JObj [(lit ''id'', JStr (id' e)), (lit ''date'', JStr (date e)),
           (lit ''amount'', JNum (amount e)), (lit ''category'', JStr (category e)),
           (lit ''note'', JStr (note' e))]"

text \<open>
  The text of a storage slot is not modelled character by character but by what
  \<open>JSON.parse\<close> makes of it: the empty string, a text that is not JSON (a SyntaxError), or a
  JSON text, given by the value it denotes.
\<close>

datatype slot_text = Empty_text | Not_json | Json jsval

datatype exn = SecurityError | QuotaExceededError | SyntaxError

definition JSON_parse :: "slot_text \<Rightarrow> exn + jsval" where
  "JSON_parse t = (case t of Json v \<Rightarrow> Inr v | _ \<Rightarrow> Inl SyntaxError)"

text \<open>
  What a value reads back as after \<open>JSON.stringify\<close>: a number that is not finite is
  written as \<open>null\<close>, everything else is kept.
\<close>

fun as_json :: "jsval \<Rightarrow> jsval" where
  "as_json (JNum x) = (if isFinite x then JNum x else JNull)"
| "as_json (JArr vs) = JArr (map as_json vs)"
| "as_json (JObj kvs) = JObj (map (map_prod id as_json) kvs)"
| "as_json v = v"

definition JSON_stringify :: "jsval \<Rightarrow> slot_text" where
  "JSON_stringify v = Json (as_json v)"

text \<open>
  \<open>localStorage\<close>: its items, whether reading it is allowed (otherwise \<open>getItem\<close> throws)
  and whether it takes a write (otherwise \<open>setItem\<close> throws, as when the quota is
  exceeded).
\<close>

record storage =
  items :: "jsstring \<Rightarrow> slot_text option"
  readable :: bool
  writable :: bool

definition getItem :: "storage \<Rightarrow> jsstring \<Rightarrow> exn + slot_text option" where
  "getItem ls k = (if readable ls then Inr (items ls k) else Inl SecurityError)"

definition setItem :: "storage \<Rightarrow> jsstring \<Rightarrow> slot_text \<Rightarrow> exn + storage" where
  "setItem ls k t =
     (if writable ls then Inr (ls\<lparr>items := (items ls)(k \<mapsto> t)\<rparr>) else Inl QuotaExceededError)"

definition STORAGE_KEY :: jsstring where
  "STORAGE_KEY = lit ''et_expenses_v1''"

text \<open>
  The body of the \<open>try\<close> block of the load effect: the array handed to \<open>setExpenses\<close>, if
  the effect gets that far, or the exception thrown.
\<close>

definition load_try :: "storage \<Rightarrow> exn + jsval list option" where
  "load_try ls =
     (case getItem ls STORAGE_KEY of
        Inl ex \<Rightarrow> Inl ex
      | Inr None \<Rightarrow> Inr None
      | Inr (Some raw) \<Rightarrow>
          if raw = Empty_text then Inr None
          else (case JSON_parse raw of
                  Inl ex \<Rightarrow> Inl ex
                | Inr parsed \<Rightarrow>
                    (case parsed of JArr vs \<Rightarrow> Inr (Some vs) | _ \<Rightarrow> Inr None)))"

text \<open>
  The load effect: the expenses after it, starting from the initial \<open>[]\<close>. The \<open>catch\<close>
  clause ignores every exception. The array is stored as it was parsed; the cast
  \<open>as Expense[]\<close> checks nothing.
\<close>

definition load :: "storage \<Rightarrow> exn + jsval list" where
  "load ls =
     (case load_try ls of
        Inl ex \<Rightarrow> Inr []
      | Inr None \<Rightarrow> Inr []
      | Inr (Some vs) \<Rightarrow> Inr vs)"

text \<open>The persist effect: the storage after it. A failed write is ignored.\<close>

definition save :: "Expense list \<Rightarrow> storage \<Rightarrow> storage" where
  "save es ls =
     (case setItem ls STORAGE_KEY (JSON_stringify (JArr (map value_of_Expense es))) of
        Inl ex \<Rightarrow> ls
      | Inr ls' \<Rightarrow> ls')"

subsection \<open>The properties the specification names\<close>

text \<open>
  A value shaped like an expense record: an object with string properties \<open>id\<close>, \<open>date\<close>,
  \<open>category\<close>, \<open>note\<close> and a numeric property \<open>amount\<close>; and the record it is then.
\<close>

definition Expense_of_value :: "jsval \<Rightarrow> Expense option" where
  "Expense_of_value v =
     (case v of
        JObj kvs \<Rightarrow>
          (case (map_of kvs (lit ''id''), map_of kvs (lit ''date''), map_of kvs (lit ''amount''),
                 map_of kvs (lit ''category''), map_of kvs (lit ''note'')) of
             (Some (JStr i), Some (JStr d), Some (JNum a), Some (JStr c), Some (JStr n)) \<Rightarrow>
               Some \<lparr>id' = i, date = d, amount = a, category = c, note' = n\<rparr>
           | _ \<Rightarrow> None)
      | _ \<Rightarrow> None)"

text \<open>A rational rounded to two decimal places, a half upwards.\<close>

definition round_half_up_2 :: "rat \<Rightarrow> rat" where
  "round_half_up_2 x = of_int \<lfloor>x * 100 + 1 / 2\<rfloor> / 100"

text \<open>
  \<open>t\<close> is \<open>s\<close> trimmed: \<open>s\<close> without white space in front and behind, and \<open>t\<close> itself
  neither starts nor ends with white space.
\<close>

definition is_trim_of :: "jsstring \<Rightarrow> jsstring \<Rightarrow> bool" where
  "is_trim_of s t \<longleftrightarrow>
     (\<exists>pre suf. s = pre @ t @ suf \<and> list_all is_white_space pre \<and> list_all is_white_space suf)
     \<and> (t = [] \<or> (\<not> is_white_space (hd t) \<and> \<not> is_white_space (last t)))"

text \<open>A slot text that parses as a sequence of values shaped like expense records.\<close>

definition parses_as_expenses :: "slot_text \<Rightarrow> bool" where
  "parses_as_expenses t \<longleftrightarrow>
     (case t of
        Json (JArr vs) \<Rightarrow> list_all (\<lambda>v. Expense_of_value v \<noteq> None) vs
      | _ \<Rightarrow> False)"

text \<open>A calendar date in the form \<open>YYYY-MM-DD\<close>.\<close>

definition leap_year :: "int \<Rightarrow> bool" where
  "leap_year y \<longleftrightarrow> (y mod 4 = 0 \<and> y mod 100 \<noteq> 0) \<or> y mod 400 = 0"

definition days_in_month :: "int \<Rightarrow> int \<Rightarrow> int" where
  "days_in_month y m =
     (if m = 2 then (if leap_year y then 29 else 28)
      else if m = 4 \<or> m = 6 \<or> m = 9 \<or> m = 11 then 30 else 31)"

definition valid_calendar_date :: "jsstring \<Rightarrow> bool" where
  "valid_calendar_date s \<longleftrightarrow>
     length s = 10 \<and> s ! 4 = 0x2D \<and> s ! 7 = 0x2D
     \<and> list_all is_digit (take 4 s) \<and> list_all is_digit (take 2 (drop 5 s))
     \<and> list_all is_digit (drop 8 s)
     \<and> 1 \<le> digits_val (take 4 s)
     \<and> 1 \<le> digits_val (take 2 (drop 5 s)) \<and> digits_val (take 2 (drop 5 s)) \<le> 12
     \<and> 1 \<le> digits_val (drop 8 s)
     \<and> digits_val (drop 8 s)
         \<le> days_in_month (digits_val (take 4 s)) (digits_val (take 2 (drop 5 s)))"

text \<open>The invariants of the store: distinct ids, positive amounts, valid dates.\<close>

definition store_invariant :: "Expense list \<Rightarrow> bool" where
  "store_invariant es \<longleftrightarrow>
     distinct (map id' es)
     \<and> list_all (\<lambda>e. js_lt (Fin 0) (amount e)) es
     \<and> list_all (\<lambda>e. valid_calendar_date (date e)) es"

text \<open>The number an id stands for, which the expenses of a date are sorted by.\<close>

definition id_number :: "Expense \<Rightarrow> jsnum" where
  "id_number e = Number (id' e)"

text \<open>
  The numbers that are doubles: a finite one is a multiple of \<open>2 ^ -1074\<close>, the smallest
  positive double.
\<close>

definition is_double :: "jsnum \<Rightarrow> bool" where
  "is_double x \<longleftrightarrow> (case x of Fin y \<Rightarrow> \<exists>n::int. y = of_int n * ipow 2 (- 1074) | _ \<Rightarrow> True)"

text \<open>
  What the amended invariant asks of the inputs: the dates typed or selected are valid
  calendar dates, an amount field either is rejected by \<open>handleAdd\<close> or parses to at
  least 0.005, and the clock readings of the submissions are pairwise distinct.
\<close>

definition amount_rejected_or_cent :: "jsstring \<Rightarrow> bool" where
  "amount_rejected_or_cent a \<longleftrightarrow>
     (case parseFloat a of Fin p \<Rightarrow> p \<le> 0 \<or> 1 / 200 \<le> p | _ \<Rightarrow> True)"

fun well_formed_event :: "event \<Rightarrow> bool" where
  "well_formed_event (SelectDate d) = valid_calendar_date d"
| "well_formed_event (SetDate d) = valid_calendar_date d"
| "well_formed_event (SetAmount a) = amount_rejected_or_cent a"
| "well_formed_event ev = True"

fun submit_times :: "event list \<Rightarrow> int list" where
  "submit_times [] = []"
| "submit_times (Submit t # evs) = t # submit_times evs"
| "submit_times (ev # evs) = submit_times evs"

text \<open>
  The invariant of the page state behind it; \<open>T\<close> holds the clock readings used so far.
\<close>

definition page_invariant :: "int set \<Rightarrow> page \<Rightarrow> bool" where
  "page_invariant T st \<longleftrightarrow>
     valid_calendar_date (selectedDate st) \<and> valid_calendar_date (form_date st)
     \<and> amount_rejected_or_cent (form_amount st)
     \<and> store_invariant (expenses st)
     \<and> set (map id' (expenses st)) \<subseteq> String_of_time ` T"

text \<open>The integer a decimal string with an optional minus sign stands for.\<close>

definition time_of_String :: "jsstring \<Rightarrow> int" where
  "time_of_String s =
     (case s of
        [] \<Rightarrow> 0
      | c # cs \<Rightarrow> if c = 0x2D then - digits_val cs else digits_val s)"

subsection \<open>Sample data\<close>

definition sample_a :: Expense where
  "sample_a = \<lparr>id' = lit ''1700000000002'', date = lit ''2024-01-01'', amount = Fin 10,
               category = lit ''Food'', note' = []\<rparr>"

definition sample_b :: Expense where
  "sample_b = \<lparr>id' = lit ''1700000000001'', date = lit ''2024-01-01'', amount = Fin (11 / 2),
               category = lit ''Coffee'', note' = []\<rparr>"

definition sample_c :: Expense where
  "sample_c = \<lparr>id' = lit ''1700000000001'', date = lit ''2024-01-02'', amount = Fin 3,
               category = lit ''Fun'', note' = lit ''cinema''\<rparr>"

definition sample_d :: Expense where
  "sample_d = \<lparr>id' = lit ''1700000000000'', date = lit ''2024-01-02'', amount = Fin 7,
               category = lit ''Bills'', note' = []\<rparr>"

definition sample_page :: "Expense list \<Rightarrow> page" where
  "sample_page es = (initial_page (lit ''2024-01-01''))\<lparr>expenses := es\<rparr>"

text \<open>The initial page of the first of January with an amount typed in.\<close>

definition amount_page :: "string \<Rightarrow> page" where
  "amount_page a = (initial_page (lit ''2024-01-01''))\<lparr>form_amount := lit a\<rparr>"

text \<open>The same with a category and a note that have white space around them.\<close>

definition lunch_page :: page where
  "lunch_page = (initial_page (lit ''2024-01-01''))
     \<lparr>form_amount := lit ''12.345'', form_category := lit ''  Food '',
      form_note := lit '' lunch ''\<rparr>"

text \<open>A record of the first of January with the given id.\<close>

definition with_id :: "string \<Rightarrow> Expense" where
  "with_id s = \<lparr>id' = lit s, date = lit ''2024-01-01'', amount = Fin 5,
                category = lit ''General'', note' = []\<rparr>"

text \<open>Records with the amounts 0.1, 0.2, 0.3 and so on.\<close>

definition tenths :: "int \<Rightarrow> Expense" where
  "tenths k = \<lparr>id' = lit ''1700000000000'', date = lit ''2024-01-01'',
               amount = to_double (of_int k / 10), category = lit ''General'', note' = []\<rparr>"

definition empty_storage :: storage where
  "empty_storage = \<lparr>items = (\<lambda>k. None), readable = True, writable = True\<rparr>"

definition storage_with :: "slot_text \<Rightarrow> storage" where
  "storage_with t = empty_storage\<lparr>items := (items empty_storage)(STORAGE_KEY \<mapsto> t)\<rparr>"

lemmas sample_defs = sample_a_def sample_b_def sample_c_def sample_d_def sample_page_def
  initial_page_def lit_def

subsection \<open>Evaluation\<close>

text \<open>Integer powers are computed by repeated squaring.\<close>

lemma ipow_code [code]:
  "ipow b e =
     (if e < 0 then 1 / ipow b (- e)
      else if e = 0 then 1
      else if even e then (ipow b (e div 2)) ^ 2
      else b * (ipow b (e div 2)) ^ 2)"
proof -
  have pos: "ipow b e = (if even e then (ipow b (e div 2)) ^ 2 else b * (ipow b (e div 2)) ^ 2)"
    if "0 < e" for e
  proof -
    have nn: "0 \<le> e div 2" using that by simp
    have "b powi e = b ^ nat e" using that by (simp add: power_int_def)
    also have "nat e = 2 * nat (e div 2) + (if even e then 0 else 1)"
      using that by (auto elim!: evenE oddE simp: nat_mult_distrib nat_add_distrib)
    also have "b ^ (2 * nat (e div 2) + (if even e then 0 else 1)) =
        (if even e then (b ^ nat (e div 2)) ^ 2 else b * (b ^ nat (e div 2)) ^ 2)"
      by (simp add: power_add power_even_eq)
    also have "b ^ nat (e div 2) = b powi (e div 2)"
      using nn by (simp add: power_int_def)
    finally show ?thesis by (simp add: ipow_def)
  qed
  show ?thesis
  proof (cases "e < 0")
    case True
    then show ?thesis
      by (simp add: ipow_def power_int_minus divide_inverse)
  next
    case False
    then show ?thesis using pos [of e] by (cases "e = 0") (simp_all add: ipow_def)
  qed
qed

section \<open>Rounding to double precision\<close>

text \<open>
  Facts about the rounding that the theorems on amounts and on the order of ids rest on:
  the binary exponent is the right one, a rounded value is a multiple of \<open>2 ^ -1074\<close>,
  rounding keeps the sign and never moves a value below a power of two it reached, and
  it overflows exactly from \<open>2 ^ 1024\<close> on.
\<close>

lemma ipow2_pos [simp]: "0 < ipow 2 e"
  by (simp add: ipow_def)

lemma ipow2_add: "ipow 2 (a + b) = ipow 2 a * ipow 2 b"
  by (simp add: ipow_def power_int_add)

lemma ipow2_mono: "a \<le> b \<Longrightarrow> ipow 2 a \<le> ipow 2 b"
  by (simp add: ipow_def power_int_increasing)

lemma ipow2_less_iff: "ipow 2 a < ipow 2 b \<longleftrightarrow> a < b"
proof
  assume "ipow 2 a < ipow 2 b"
  then show "a < b" using ipow2_mono [of b a] by (cases "a < b") auto
next
  assume "a < b"
  then show "ipow 2 a < ipow 2 b" by (simp add: ipow_def power_int_strict_increasing)
qed

lemma ipow2_nat: "0 \<le> e \<Longrightarrow> ipow 2 e = 2 ^ nat e"
  by (simp add: ipow_def power_int_nonneg_exp)

lemma bitlen_rat_bounds:
  assumes "0 < a"
  shows "ipow 2 (bitlen a - 1) \<le> of_int a" and "of_int a < ipow 2 (bitlen a)"
proof -
  from assms have ge1: "1 \<le> bitlen a"
    using bitlen_eq_zero_iff [of a] bitlen_nonneg [of a] by linarith
  from bitlen_bounds [OF assms]
  have l: "(2::int) ^ nat (bitlen a - 1) \<le> a" and u: "a < (2::int) ^ nat (bitlen a)"
    by simp_all
  have "(of_int ((2::int) ^ nat (bitlen a - 1)) :: rat) \<le> of_int a"
    using l by (simp only: of_int_le_iff)
  then show "ipow 2 (bitlen a - 1) \<le> of_int a"
    using ge1 by (simp add: ipow2_nat)
  have "(of_int a :: rat) < of_int ((2::int) ^ nat (bitlen a))"
    using u by (simp only: of_int_less_iff)
  then show "of_int a < ipow 2 (bitlen a)"
    using ge1 by (simp add: ipow2_nat)
qed

lemma ilog2_bounds:
  assumes "0 < x"
  shows "ipow 2 (ilog2 x) \<le> x" and "x < ipow 2 (ilog2 x + 1)"
proof -
  obtain a b where q: "quotient_of x = (a, b)" by (cases "quotient_of x")
  have b: "0 < b" using quotient_of_denom_pos [OF q] .
  have x: "x = of_int a / of_int b" using quotient_of_div [OF q] .
  have a: "0 < a" using assms b by (simp add: x zero_less_divide_iff)
  let ?A = "bitlen a" and ?B = "bitlen b"
  note la = bitlen_rat_bounds [OF a] and lb = bitlen_rat_bounds [OF b]
  have bq: "(0::rat) < of_int b" using b by simp
  have low: "ipow 2 (?A - ?B - 1) < x"
  proof -
    have "ipow 2 (?A - ?B - 1) * of_int b < ipow 2 (?A - ?B - 1) * ipow 2 ?B"
      using lb(2) by (simp add: mult_strict_left_mono)
    also have "\<dots> = ipow 2 (?A - 1)"
      by (simp add: ipow2_add [symmetric])
    also have "\<dots> \<le> of_int a" by (rule la(1))
    finally show ?thesis using bq by (simp add: x pos_less_divide_eq)
  qed
  have up: "x < ipow 2 (?A - ?B + 1)"
  proof -
    have "of_int a < ipow 2 ?A" by (rule la(2))
    also have "\<dots> = ipow 2 (?A - ?B + 1) * ipow 2 (?B - 1)"
      by (simp add: ipow2_add [symmetric])
    also have "\<dots> \<le> ipow 2 (?A - ?B + 1) * of_int b"
      using lb(1) by (simp add: mult_left_mono)
    finally show ?thesis using bq by (simp add: x pos_divide_less_eq)
  qed
  have il: "ilog2 x = (if ipow 2 (?A - ?B) \<le> x then ?A - ?B else ?A - ?B - 1)"
    by (simp add: ilog2_def q Let_def)
  show "ipow 2 (ilog2 x) \<le> x"
    using low by (simp add: il)
  show "x < ipow 2 (ilog2 x + 1)"
    using up by (auto simp: il not_le)
qed

lemma ilog2_ge: "ipow 2 k \<le> x \<Longrightarrow> k \<le> ilog2 x"
proof -
  assume a: "ipow 2 k \<le> x"
  then have "0 < x" using ipow2_pos [of k] by linarith
  from ilog2_bounds(2) [OF this] a have "ipow 2 k < ipow 2 (ilog2 x + 1)" by linarith
  then show ?thesis by (simp add: ipow2_less_iff)
qed

lemma ilog2_less: "0 < x \<Longrightarrow> x < ipow 2 k \<Longrightarrow> ilog2 x < k"
proof -
  assume "0 < x" and a: "x < ipow 2 k"
  from ilog2_bounds(1) [OF \<open>0 < x\<close>] a have "ipow 2 (ilog2 x) < ipow 2 k" by linarith
  then show ?thesis by (simp add: ipow2_less_iff)
qed

lemma round_even_ge: "of_int n \<le> r \<Longrightarrow> n \<le> round_even r"
proof -
  assume "of_int n \<le> r"
  then have "n \<le> \<lfloor>r\<rfloor>" by (simp add: le_floor_iff)
  then show ?thesis by (auto simp: round_even_def Let_def)
qed

lemma round_even_le: "r \<le> of_int n \<Longrightarrow> round_even r \<le> n"
proof -
  assume a: "r \<le> of_int n"
  have f: "\<lfloor>r\<rfloor> \<le> n" using a by (simp add: floor_le_iff)
  show ?thesis
  proof (cases "r - of_int \<lfloor>r\<rfloor> < 1 / 2")
    case True
    then show ?thesis using f by (simp add: round_even_def Let_def)
  next
    case False
    then have "of_int \<lfloor>r\<rfloor> < r" by linarith
    with a have "(of_int \<lfloor>r\<rfloor> :: rat) < of_int n" by linarith
    then have "\<lfloor>r\<rfloor> < n" by (simp only: of_int_less_iff)
    then show ?thesis by (auto simp: round_even_def Let_def)
  qed
qed



lemma ipow2_nonneg [simp]: "0 \<le> ipow 2 e"
  using ipow2_pos [of e] by linarith

lemma ipow2_neq0 [simp]: "ipow 2 e \<noteq> 0"
  using ipow2_pos [of e] by linarith


lemma to_double_pos:
  assumes "0 < x"
  shows "to_double x = PInf
         \<or> to_double x = Fin (of_int (round_even (x / ipow 2 (max (ilog2 x) (- 1022) - 52)))
                                * ipow 2 (max (ilog2 x) (- 1022) - 52))"
    and "max (ilog2 x) (- 1022) < 1023 \<Longrightarrow>
         to_double x = Fin (of_int (round_even (x / ipow 2 (max (ilog2 x) (- 1022) - 52)))
                             * ipow 2 (max (ilog2 x) (- 1022) - 52))"
    and "1024 \<le> max (ilog2 x) (- 1022) \<Longrightarrow> to_double x = PInf"
proof -
  let ?e = "max (ilog2 x) (- 1022)"
  let ?n = "round_even (x / ipow 2 (?e - 52))"
  let ?C = "1024 \<le> ?e \<or> (?e = 1023 \<and> 2 ^ 53 \<le> \<bar>?n\<bar>)"
  have nz: "(x = 0) = False" and p: "(0 < x) = True" and ax: "\<bar>x\<bar> = x"
    using assms by simp_all
  have eq: "to_double x = (if ?C then PInf else Fin (of_int ?n * ipow 2 (?e - 52)))"
    unfolding to_double_def Let_def ax nz p if_True if_False ..
  show "to_double x = PInf \<or> to_double x = Fin (of_int ?n * ipow 2 (?e - 52))"
  proof (cases ?C)
    case True
    then have "to_double x = PInf" unfolding eq by (rule if_P)
    then show ?thesis ..
  next
    case False
    then have "to_double x = Fin (of_int ?n * ipow 2 (?e - 52))" unfolding eq by (rule if_not_P)
    then show ?thesis ..
  qed
  show "to_double x = Fin (of_int ?n * ipow 2 (?e - 52))" if "?e < 1023"
  proof -
    from that have "\<not> ?C" by linarith
    then show ?thesis unfolding eq by (rule if_not_P)
  qed
  show "to_double x = PInf" if "1024 \<le> ?e"
  proof -
    from that have ?C ..
    then show ?thesis unfolding eq by (rule if_P)
  qed
qed

lemma to_double_neg:
  assumes "x < 0"
  shows "to_double x = NInf
         \<or> to_double x = Fin (of_int (round_even (x / ipow 2 (max (ilog2 (- x)) (- 1022) - 52)))
                                * ipow 2 (max (ilog2 (- x)) (- 1022) - 52))"
proof -
  let ?e = "max (ilog2 (- x)) (- 1022)"
  let ?n = "round_even (x / ipow 2 (?e - 52))"
  let ?C = "1024 \<le> ?e \<or> (?e = 1023 \<and> 2 ^ 53 \<le> \<bar>?n\<bar>)"
  have nz: "(x = 0) = False" and p: "(0 < x) = False" and ax: "\<bar>x\<bar> = - x"
    using assms by simp_all
  have eq: "to_double x = (if ?C then NInf else Fin (of_int ?n * ipow 2 (?e - 52)))"
    unfolding to_double_def Let_def ax nz p if_True if_False ..
  show ?thesis
  proof (cases ?C)
    case True
    then have "to_double x = NInf" unfolding eq by (rule if_P)
    then show ?thesis ..
  next
    case False
    then have "to_double x = Fin (of_int ?n * ipow 2 (?e - 52))" unfolding eq by (rule if_not_P)
    then show ?thesis ..
  qed
qed

lemma to_double_0 [simp]: "to_double 0 = Fin 0"
  by (simp add: to_double_def)

lemma to_double_grid:
  assumes "to_double x = Fin y"
  shows "\<exists>n::int. y = of_int n * ipow 2 (- 1074)"
proof -
  have scale: "\<exists>m::int. of_int n * ipow 2 (e - 52) = of_int m * ipow 2 (- 1074)"
    if "- 1022 \<le> e" for n e
  proof -
    have "ipow 2 (e - 52) = ipow 2 (e + 1022) * ipow 2 (- 1074)"
      by (simp add: ipow2_add [symmetric])
    also have "ipow 2 (e + 1022) = of_int (2 ^ nat (e + 1022))"
      using that by (simp add: ipow2_nat)
    finally have "of_int n * ipow 2 (e - 52)
        = of_int (n * 2 ^ nat (e + 1022)) * ipow 2 (- 1074)"
      by simp
    then show ?thesis by blast
  qed
  consider "x = 0" | "0 < x" | "x < 0" by linarith
  then show ?thesis
  proof cases
    case 1
    with assms have "y = of_int 0 * ipow 2 (- 1074)" by simp
    then show ?thesis by blast
  next
    case 2
    let ?e = "max (ilog2 x) (- 1022)"
    from to_double_pos(1) [OF 2] assms
    have "y = of_int (round_even (x / ipow 2 (?e - 52))) * ipow 2 (?e - 52)"
      by simp
    then show ?thesis using scale [of ?e] by simp
  next
    case 3
    let ?e = "max (ilog2 (- x)) (- 1022)"
    from to_double_neg [OF 3] assms
    have "y = of_int (round_even (x / ipow 2 (?e - 52))) * ipow 2 (?e - 52)"
      by simp
    then show ?thesis using scale [of ?e] by simp
  qed
qed

lemma to_double_nonneg:
  assumes "0 \<le> x"
  shows "to_double x = PInf \<or> (\<exists>y. to_double x = Fin y \<and> 0 \<le> y)"
proof (cases "x = 0")
  case True
  then show ?thesis by simp
next
  case False
  then have pos: "0 < x" using assms by simp
  let ?q = "ipow 2 (max (ilog2 x) (- 1022) - 52)"
  have "of_int 0 \<le> x / ?q" using pos by (simp add: divide_nonneg_pos)
  then have "0 \<le> round_even (x / ?q)" by (rule round_even_ge)
  then have "0 \<le> of_int (round_even (x / ?q)) * ?q" by simp
  then show ?thesis using to_double_pos(1) [OF pos] by blast
qed

lemma to_double_nonpos:
  assumes "x \<le> 0"
  shows "to_double x = NInf \<or> (\<exists>y. to_double x = Fin y \<and> y \<le> 0)"
proof (cases "x = 0")
  case True
  then show ?thesis by simp
next
  case False
  then have neg: "x < 0" using assms by simp
  let ?q = "ipow 2 (max (ilog2 (- x)) (- 1022) - 52)"
  have "x / ?q \<le> of_int 0" using neg by (simp add: divide_nonpos_pos)
  then have "round_even (x / ?q) \<le> 0" by (rule round_even_le)
  then have "of_int (round_even (x / ?q)) * ?q \<le> 0" by (simp add: mult_le_0_iff)
  then show ?thesis using to_double_neg [OF neg] by blast
qed

lemma to_double_lower:
  assumes "ipow 2 k \<le> x" and "- 1022 \<le> k"
  shows "to_double x = PInf \<or> (\<exists>y. to_double x = Fin y \<and> ipow 2 k \<le> y)"
proof -
  have pos: "0 < x" using assms(1) ipow2_pos [of k] by linarith
  define e where "e = max (ilog2 x) (- 1022)"
  define n where "n = round_even (x / ipow 2 (e - 52))"
  have ke: "k \<le> ilog2 x" using assms(1) by (rule ilog2_ge)
  then have e: "e = ilog2 x" using assms(2) by (simp add: e_def)
  have "ipow 2 e \<le> x" using ilog2_bounds(1) [OF pos] by (simp add: e)
  moreover have "ipow 2 e = ipow 2 52 * ipow 2 (e - 52)" by (simp add: ipow2_add [symmetric])
  ultimately have "ipow 2 52 \<le> x / ipow 2 (e - 52)" by (simp add: pos_le_divide_eq)
  moreover have "ipow 2 52 = of_int (2 ^ 52)" by (simp add: ipow2_nat)
  ultimately have "of_int (2 ^ 52) \<le> x / ipow 2 (e - 52)" by simp
  then have "2 ^ 52 \<le> n" unfolding n_def by (rule round_even_ge)
  then have "(of_int (2 ^ 52) :: rat) \<le> of_int n" by (simp only: of_int_le_iff)
  then have "of_int (2 ^ 52) * ipow 2 (e - 52) \<le> of_int n * ipow 2 (e - 52)"
    by (simp add: mult_right_mono)
  moreover have "of_int (2 ^ 52) * ipow 2 (e - 52) = ipow 2 e"
    using ipow2_add [of 52 "e - 52"] by (simp add: ipow2_nat)
  moreover have "ipow 2 k \<le> ipow 2 e" using ke by (simp add: e ipow2_mono)
  ultimately have "ipow 2 k \<le> of_int n * ipow 2 (e - 52)" by linarith
  then show ?thesis
    using to_double_pos(1) [OF pos] unfolding e_def n_def by blast
qed

lemma to_double_grid_pos:
  assumes "ipow 2 (- 1074) \<le> x"
  shows "to_double x = PInf \<or> (\<exists>y. to_double x = Fin y \<and> 0 < y)"
proof -
  have pos: "0 < x" using assms ipow2_pos [of "- 1074"] by linarith
  define e where "e = max (ilog2 x) (- 1022)"
  define n where "n = round_even (x / ipow 2 (e - 52))"
  have "ipow 2 (e - 52) \<le> x"
  proof (cases "ilog2 x \<le> - 1022")
    case True
    then have "e = - 1022" by (simp add: e_def)
    then show ?thesis using assms by simp
  next
    case False
    then have "e = ilog2 x" by (simp add: e_def)
    moreover have "ipow 2 (ilog2 x - 52) \<le> ipow 2 (ilog2 x)" by (simp add: ipow2_mono)
    ultimately show ?thesis using ilog2_bounds(1) [OF pos] by simp
  qed
  then have "of_int 1 \<le> x / ipow 2 (e - 52)" by (simp add: pos_le_divide_eq)
  then have "1 \<le> n" unfolding n_def by (rule round_even_ge)
  then have "0 < of_int n * ipow 2 (e - 52)" by simp
  then show ?thesis
    using to_double_pos(1) [OF pos] unfolding e_def n_def by blast
qed

lemma to_double_finite:
  assumes "0 < x" and "x < ipow 2 1023"
  shows "\<exists>y. to_double x = Fin y"
proof -
  have "ilog2 x < 1023" using assms by (rule ilog2_less)
  then have "max (ilog2 x) (- 1022) < 1023" by simp
  then show ?thesis using to_double_pos(2) [OF assms(1)] by blast
qed

lemma to_double_overflow:
  assumes "ipow 2 1024 \<le> x"
  shows "to_double x = PInf"
proof -
  have pos: "0 < x" using assms ipow2_pos [of 1024] by linarith
  have "1024 \<le> ilog2 x" using assms by (rule ilog2_ge)
  then have "1024 \<le> max (ilog2 x) (- 1022)" by simp
  then show ?thesis by (rule to_double_pos(3) [OF pos])
qed

lemma to_double_not_NaN: "to_double x \<noteq> NaN"
proof -
  consider "x = 0" | "0 < x" | "x < 0" by linarith
  then show ?thesis
  proof cases
    case 1
    then show ?thesis by simp
  next
    case 2
    from to_double_pos(1) [OF this] show ?thesis by auto
  next
    case 3
    from to_double_neg [OF this] show ?thesis by auto
  qed
qed

section \<open>Strings of digits and trimmed strings\<close>

text \<open>
  \<open>String(Date.now())\<close> can be read back: the decimal string of an integer determines
  the integer, so different clock readings give different ids.
\<close>

lemma uint_code_unit: "0 \<le> k \<Longrightarrow> k < 65536 \<Longrightarrow> uint (word_of_int k :: 16 word) = k"
  by (simp add: uint_word_of_int take_bit_eq_mod)

lemma digit_val_of_int: "0 \<le> d \<Longrightarrow> d \<le> 9 \<Longrightarrow> digit_val (48 + word_of_int d) = d"
  using uint_code_unit [of "48 + d"] by (simp add: digit_val_def)

lemma digits_val_snoc: "digits_val (ds @ [c]) = 10 * digits_val ds + digit_val c"
  by (simp add: digits_val_def)

lemma digits_val_decimal_digits: "0 \<le> n \<Longrightarrow> digits_val (decimal_digits n) = n"
proof (induction n rule: decimal_digits.induct)
  case (1 n)
  show ?case
  proof (cases "n < 10")
    case True
    then have "decimal_digits n = [48 + word_of_int n]" by (subst decimal_digits.simps) simp
    moreover have "digit_val (48 + word_of_int n) = n"
      using 1(2) True by (intro digit_val_of_int) simp_all
    ultimately show ?thesis by (simp add: digits_val_def)
  next
    case False
    then have d: "decimal_digits n = decimal_digits (n div 10) @ [48 + word_of_int (n mod 10)]"
      by (subst decimal_digits.simps) simp
    have "0 \<le> n div 10" using 1(2) by simp
    then have "digits_val (decimal_digits (n div 10)) = n div 10"
      using 1(1) [OF False] by simp
    moreover have "digit_val (48 + word_of_int (n mod 10)) = n mod 10"
      by (intro digit_val_of_int) simp_all
    ultimately show ?thesis
      by (simp add: d digits_val_snoc)
  qed
qed

lemma decimal_digits_hd: "0 \<le> n \<Longrightarrow> \<exists>c cs. decimal_digits n = c # cs \<and> c \<noteq> 0x2D"
proof (induction n rule: decimal_digits.induct)
  case (1 n)
  show ?case
  proof (cases "n < 10")
    case True
    then have d: "decimal_digits n = [48 + word_of_int n]" by (subst decimal_digits.simps) simp
    have "uint (48 + word_of_int n :: 16 word) = 48 + n"
      using uint_code_unit [of "48 + n"] True 1(2) by simp
    then have "uint (48 + word_of_int n :: 16 word) \<noteq> uint (0x2D :: 16 word)"
      using 1(2) by simp
    then have "(48 + word_of_int n :: 16 word) \<noteq> 0x2D" by metis
    then show ?thesis using d by simp
  next
    case False
    then have d: "decimal_digits n = decimal_digits (n div 10) @ [48 + word_of_int (n mod 10)]"
      by (subst decimal_digits.simps) simp
    have "0 \<le> n div 10" using 1(2) by simp
    with 1(1) [OF False] obtain c cs where "decimal_digits (n div 10) = c # cs" "c \<noteq> 0x2D"
      by auto
    then show ?thesis using d by simp
  qed
qed

lemma time_of_String_inverse: "time_of_String (String_of_time t) = t"
proof (cases "t < 0")
  case True
  then show ?thesis
    by (simp add: time_of_String_def String_of_time_def digits_val_decimal_digits)
next
  case False
  then obtain c cs where "decimal_digits t = c # cs" "c \<noteq> 0x2D"
    using decimal_digits_hd [of t] by auto
  then show ?thesis
    using False digits_val_decimal_digits [of t]
    by (simp add: time_of_String_def String_of_time_def)
qed

lemma String_of_time_inj: "String_of_time a = String_of_time b \<Longrightarrow> a = b"
  by (metis time_of_String_inverse)

text \<open>
  The decimal string of a clock reading consists of digits, with a minus sign in front
  for a negative reading, and \<open>Number\<close> reads it back as the double of that integer.
\<close>

lemma is_digit_iff: "is_digit c \<longleftrightarrow> 48 \<le> uint c \<and> uint c \<le> 57"
  by (simp add: is_digit_def word_le_def)

lemma is_digit_code_unit:
  assumes "0 \<le> d" and "d \<le> 9"
  shows "is_digit (48 + word_of_int d)"
  using uint_code_unit [of "48 + d"] assms by (simp add: is_digit_iff)

lemma digits_decimal_digits:
  "0 \<le> n \<Longrightarrow> decimal_digits n \<noteq> [] \<and> list_all is_digit (decimal_digits n)"
proof (induction n rule: decimal_digits.induct)
  case (1 n)
  show ?case
  proof (cases "n < 10")
    case True
    then have "decimal_digits n = [48 + word_of_int n]" by (subst decimal_digits.simps) simp
    moreover have "is_digit (48 + word_of_int n)"
      using 1(2) True by (intro is_digit_code_unit) simp_all
    ultimately show ?thesis by simp
  next
    case False
    then have d: "decimal_digits n = decimal_digits (n div 10) @ [48 + word_of_int (n mod 10)]"
      by (subst decimal_digits.simps) simp
    have "0 \<le> n div 10" using 1(2) by simp
    then have "list_all is_digit (decimal_digits (n div 10))"
      using 1(1) [OF False] by simp
    moreover have "is_digit (48 + word_of_int (n mod 10))"
      by (intro is_digit_code_unit) simp_all
    ultimately show ?thesis by (simp add: d)
  qed
qed

lemma digit_not_special:
  assumes "is_digit c"
  shows "\<not> is_white_space c" and "c \<noteq> 0x2D" and "c \<noteq> 0x2B" and "c \<noteq> 0x2E" and "c \<noteq> 0x49"
    and "c \<noteq> 0x62" and "c \<noteq> 0x42" and "c \<noteq> 0x6F" and "c \<noteq> 0x4F" and "c \<noteq> 0x78"
    and "c \<noteq> 0x58"
  using assms by (auto simp: is_digit_iff is_white_space_def word_le_def)


lemma dropWhile_hd: "xs \<noteq> [] \<Longrightarrow> \<not> P (hd xs) \<Longrightarrow> dropWhile P xs = xs"
  by (cases xs) simp_all

lemma String_trim_id:
  assumes "s \<noteq> []" and "\<not> is_white_space (hd s)" and "\<not> is_white_space (last s)"
  shows "String_trim s = s"
proof -
  have 1: "trim_start s = s"
    using assms(1,2) by (simp add: trim_start_def dropWhile_hd)
  have "rev s \<noteq> []" and "\<not> is_white_space (hd (rev s))"
    using assms(1,3) by (simp_all add: hd_rev)
  then have "dropWhile is_white_space (rev s) = rev s" by (rule dropWhile_hd)
  then have "trim_end s = s" by (simp add: trim_end_def)
  with 1 show ?thesis by (simp add: String_trim_def)
qed

lemma str_decimal_literal_digits:
  assumes "ds \<noteq> []" and "list_all is_digit ds"
  shows "str_decimal_literal ds = Some (to_double (of_int (digits_val ds)), [])"
proof -
  from assms obtain c cs where ds: "ds = c # cs" and c: "is_digit c"
    by (cases ds) auto
  have sign: "take_sign ds = (False, ds)"
    using digit_not_special [OF c] by (simp add: ds)
  have inf: "\<not> prefix (lit ''Infinity'') ds"
    using digit_not_special [OF c] by (simp add: ds lit_def)
  have tw: "takeWhile is_digit ds = ds" and dw: "dropWhile is_digit ds = []"
    using assms(2) by (simp_all add: list_all_iff)
  show ?thesis
    unfolding str_decimal_literal_def sign
    using inf assms(1) by (simp add: tw dw exponent_part_def ipow_def)
qed

lemma str_decimal_literal_minus_digits:
  assumes "ds \<noteq> []" and "list_all is_digit ds"
  shows "str_decimal_literal (0x2D # ds) = Some (to_double (- of_int (digits_val ds)), [])"
proof -
  from assms obtain c cs where ds: "ds = c # cs" and c: "is_digit c"
    by (cases ds) auto
  have sign: "take_sign (0x2D # ds) = (True, ds)" by simp
  have inf: "\<not> prefix (lit ''Infinity'') ds"
    using digit_not_special [OF c] by (simp add: ds lit_def)
  have tw: "takeWhile is_digit ds = ds" and dw: "dropWhile is_digit ds = []"
    using assms(2) by (simp_all add: list_all_iff)
  show ?thesis
    unfolding str_decimal_literal_def sign
    using inf assms(1) by (simp add: tw dw exponent_part_def ipow_def)
qed

lemma non_decimal_literal_digits:
  assumes "list_all is_digit ds"
  shows "non_decimal_literal ds = None" and "non_decimal_literal (0x2D # ds) = None"
proof -
  show "non_decimal_literal ds = None"
  proof (cases ds)
    case Nil
    then show ?thesis by (simp add: non_decimal_literal_def)
  next
    case (Cons z zs)
    show ?thesis
    proof (cases zs)
      case Nil
      then show ?thesis by (simp add: non_decimal_literal_def Cons)
    next
      case (Cons p ps)
      with assms \<open>ds = z # zs\<close> have "is_digit p" by simp
      from digit_not_special [OF this] show ?thesis
        by (simp add: non_decimal_literal_def Cons \<open>ds = z # zs\<close>)
    qed
  qed
  show "non_decimal_literal (0x2D # ds) = None"
    by (cases ds) (simp_all add: non_decimal_literal_def)
qed

lemma Number_String_of_time: "Number (String_of_time t) = to_double (of_int t)"
proof (cases "t < 0")
  case False
  then have nn: "0 \<le> t" by simp
  let ?ds = "decimal_digits t"
  from digits_decimal_digits [OF nn] have ne: "?ds \<noteq> []" and dg: "list_all is_digit ?ds"
    by simp_all
  have "is_digit (hd ?ds)" and "is_digit (last ?ds)"
    using ne dg by (simp_all add: list_all_iff)
  then have "String_trim ?ds = ?ds"
    using ne digit_not_special(1) by (intro String_trim_id) simp_all
  then show ?thesis
    using False ne non_decimal_literal_digits(1) [OF dg] str_decimal_literal_digits [OF ne dg]
      digits_val_decimal_digits [OF nn]
    by (simp add: Number_def String_of_time_def)
next
  case True
  then have nn: "0 \<le> - t" by simp
  let ?ds = "decimal_digits (- t)"
  from digits_decimal_digits [OF nn] have ne: "?ds \<noteq> []" and dg: "list_all is_digit ?ds"
    by simp_all
  have "is_digit (last ?ds)"
    using ne dg by (simp add: list_all_iff)
  then have "\<not> is_white_space (last (0x2D # ?ds))"
    using ne digit_not_special(1) by simp
  moreover have "\<not> is_white_space (hd (0x2D # ?ds))"
    by (simp add: is_white_space_def)
  ultimately have "String_trim (0x2D # ?ds) = 0x2D # ?ds"
    by (intro String_trim_id) simp_all
  then show ?thesis
    using True non_decimal_literal_digits(2) [OF dg] str_decimal_literal_minus_digits [OF ne dg]
      digits_val_decimal_digits [OF nn]
    by (simp add: Number_def String_of_time_def)
qed

text \<open>What \<open>trim\<close> returns is the string without the white space around it.\<close>

lemma String_trim_spec:
  "\<exists>pre suf. s = pre @ String_trim s @ suf
      \<and> list_all is_white_space pre \<and> list_all is_white_space suf
      \<and> (String_trim s \<noteq> [] \<longrightarrow>
            \<not> is_white_space (hd (String_trim s)) \<and> \<not> is_white_space (last (String_trim s)))"
proof -
  let ?t = "dropWhile is_white_space s"
  let ?pre = "takeWhile is_white_space s"
  let ?suf = "rev (takeWhile is_white_space (rev ?t))"
  have tr: "String_trim s = rev (dropWhile is_white_space (rev ?t))"
    by (simp add: String_trim_def trim_start_def trim_end_def)
  have "rev (takeWhile is_white_space (rev ?t) @ dropWhile is_white_space (rev ?t)) = rev (rev ?t)"
    by (simp only: takeWhile_dropWhile_id)
  then have "rev (dropWhile is_white_space (rev ?t)) @ ?suf = ?t"
    by (simp only: rev_append rev_rev_ident)
  then have t: "?t = String_trim s @ ?suf" by (simp only: tr)
  have "s = ?pre @ ?t" by simp
  with t have 1: "s = ?pre @ String_trim s @ ?suf" by simp
  have 2: "list_all is_white_space ?pre"
    by (simp add: list_all_iff) (meson set_takeWhileD)
  have 3: "list_all is_white_space ?suf"
    by (simp add: list_all_iff) (meson set_takeWhileD)
  have 4: "\<not> is_white_space (hd (String_trim s)) \<and> \<not> is_white_space (last (String_trim s))"
    if ne: "String_trim s \<noteq> []"
  proof
    from ne t have "hd (String_trim s) = hd ?t" by (metis hd_append2)
    moreover have "?t \<noteq> []" using ne t by (metis append_is_Nil_conv)
    ultimately show "\<not> is_white_space (hd (String_trim s))"
      using hd_dropWhile [of is_white_space s] by simp
    from ne have d: "dropWhile is_white_space (rev ?t) \<noteq> []" by (simp add: tr)
    then have "last (String_trim s) = hd (dropWhile is_white_space (rev ?t))"
      unfolding tr by (simp add: last_rev)
    then show "\<not> is_white_space (last (String_trim s))"
      using hd_dropWhile [OF d] by simp
  qed
  from 1 2 3 4 show ?thesis by blast
qed

lemma is_trim_of_String_trim: "is_trim_of s (String_trim s)"
  using String_trim_spec [of s] unfolding is_trim_of_def by blast

section \<open>Evaluated instances\<close>

text \<open>The parser, the rounding and the sums at the inputs the examples use.\<close>

lemma parseFloat_empty: "parseFloat [] = NaN"
  by (simp add: parseFloat_def str_decimal_literal_def trim_start_def lit_def)

lemma trim_General: "String_trim (lit ''General'') = lit ''General''"
  by (simp add: String_trim_def trim_start_def trim_end_def lit_def is_white_space_def)

lemma trim_empty: "String_trim [] = []"
  by (simp add: String_trim_def trim_start_def trim_end_def)

lemma General_not_empty: "lit ''General'' \<noteq> []"
  by (simp add: lit_def)

lemma parse_scenario:
  "parseFloat (lit ''10.00'') = Fin 10"
  "parseFloat (lit ''5.50'') = Fin (11 / 2)"
  by code_simp+

lemma cents_scenario:
  "jdiv (Math_round (jmul (Fin 10) (Fin 100))) (Fin 100) = Fin 10"
  "jdiv (Math_round (jmul (Fin (11 / 2)) (Fin 100))) (Fin 100) = Fin (11 / 2)"
  by code_simp+

lemma sums_scenario:
  "jadd (jadd (Fin 0) (Fin 10)) (Fin (11 / 2)) = Fin (31 / 2)"
  "jadd (jadd (Fin 0) (Fin (11 / 2))) (Fin 10) = Fin (31 / 2)"
  by code_simp+

lemma parse_small:
  "parseFloat (lit ''0.001'') = Fin (1152921504606847 / 1152921504606846976)"
  "parseFloat (lit ''5'') = Fin 5"
  by code_simp+

lemma cents_small:
  "jdiv (Math_round (jmul (Fin (1152921504606847 / 1152921504606846976)) (Fin 100))) (Fin 100)
    = Fin 0"
  "jdiv (Math_round (jmul (Fin 5) (Fin 100))) (Fin 100) = Fin 5"
  by code_simp+

lemma String_of_sample_time: "String_of_time 1700000000000 = lit ''1700000000000''"
  by code_simp

lemma valid_sample_date: "valid_calendar_date (lit ''2024-01-01'')"
  by code_simp

lemmas run_simps = run_def handleAdd_def resetForm_def initial_page_def Let_def
  trim_General trim_empty General_not_empty

lemma scenario_expenses:
  "expenses (run [SetAmount (lit ''10.00''), Submit t1, SetAmount (lit ''5.50''), Submit t2]
      (initial_page d))
   = [\<lparr>id' = String_of_time t2, date = d, amount = Fin (11 / 2),
       category = lit ''General'', note' = []\<rparr>,
      \<lparr>id' = String_of_time t1, date = d, amount = Fin 10,
       category = lit ''General'', note' = []\<rparr>]"
  by (simp add: run_simps parse_scenario cents_scenario
      del: jmul.simps jdiv.simps Math_round.simps)

lemma parse_12345: "parseFloat (lit ''12.345'') = Fin (6949617174986097 / 562949953421312)"
  by code_simp

lemma cents_12345:
  "jdiv (Math_round (jmul (Fin (6949617174986097 / 562949953421312)) (Fin 100))) (Fin 100)
    = Fin (6952431924753203 / 562949953421312)"
  by code_simp

lemma double_1235: "to_double (1235 / 100) = Fin (6952431924753203 / 562949953421312)"
  by code_simp

lemma parse_rounding:
  "parseFloat (lit ''1.005'') = Fin (1131529406376837 / 1125899906842624)"
  "parseFloat (lit ''0.015'') = Fin (1080863910568919 / 72057594037927936)"
  by code_simp+

lemma cents_rounding:
  "jdiv (Math_round (jmul (Fin (1131529406376837 / 1125899906842624)) (Fin 100))) (Fin 100)
    = Fin 1"
  "jdiv (Math_round (jmul (Fin (1080863910568919 / 72057594037927936)) (Fin 100))) (Fin 100)
    = Fin (5764607523034235 / 288230376151711744)"
  by code_simp+

lemma doubles_rounding:
  "to_double (round_half_up_2 (1005 / 1000)) = Fin (4548635623644201 / 4503599627370496)"
  "to_double (1 / 100) = Fin (5764607523034235 / 576460752303423488)"
  by code_simp+

lemma round_parsed: "round_half_up_2 (1080863910568919 / 72057594037927936) = 1 / 100"
  by code_simp

lemma parseFloat_1e307: "parseFloat (lit ''1e307'') = to_double (10 ^ 307)"
  by (simp add: parseFloat_def str_decimal_literal_def trim_start_def lit_def is_digit_def
      is_white_space_def exponent_part_def digits_val_def digit_val_def ipow_def Let_def)

lemma bounds_1e307: "ipow 2 1019 \<le> 10 ^ 307" "(10::rat) ^ 307 < ipow 2 1023"
  by (simp_all add: ipow_def)

lemma trim_lunch:
  "String_trim (lit ''  Food '') = lit ''Food''" "String_trim (lit '' lunch '') = lit ''lunch''"
  by code_simp+

lemma product_12345: "jmul (Fin (6949617174986097 / 562949953421312)) (Fin 100) = Fin (2469 / 2)"
  by code_simp

lemma quotient_1235: "to_double (of_int \<lfloor>(2469 / 2 :: rat) + 1 / 2\<rfloor> / 100)
    = Fin (6952431924753203 / 562949953421312)"
  by code_simp

section \<open>Adding: rejected amounts\<close>

text \<open>
  Claim C2. When the amount field does not parse to a finite number (\<open>parseFloat\<close> gives
  NaN or an infinity) or parses to a number that is 0 or less, \<open>handleAdd\<close> changes
  nothing: no record is created and the expenses (with the rest of the page state) are
  exactly what they were.
\<close>

theorem handleAdd_invalid_amount_noop:
  assumes "parseFloat (form_amount st) = NaN \<or> parseFloat (form_amount st) = PInf
           \<or> parseFloat (form_amount st) = NInf
           \<or> (\<exists>p. parseFloat (form_amount st) = Fin p \<and> p \<le> 0)"
  shows "handleAdd now st = st \<and> expenses (handleAdd now st) = expenses st"
  using assms by (auto simp: handleAdd_def)

theorem handleAdd_invalid_amount_noop_witness:
  "parseFloat (lit ''abc'') = NaN
   \<and> parseFloat (lit ''-5'') = Fin (- 5)
   \<and> parseFloat (lit ''0'') = Fin 0
   \<and> handleAdd 1700000000000 ((initial_page (lit ''2024-01-01''))\<lparr>form_amount := lit ''abc''\<rparr>)
       = (initial_page (lit ''2024-01-01''))\<lparr>form_amount := lit ''abc''\<rparr>
   \<and> expenses (handleAdd 1700000000000
         ((initial_page (lit ''2024-01-01''))\<lparr>form_amount := lit ''-5''\<rparr>)) = []
   \<and> expenses (handleAdd 1700000000000
         ((initial_page (lit ''2024-01-01''))\<lparr>form_amount := lit ''0''\<rparr>)) = []"
proof -
  have a: "parseFloat (lit ''abc'') = NaN" by code_simp
  have b: "parseFloat (lit ''-5'') = Fin (- 5)" by code_simp
  have c: "parseFloat (lit ''0'') = Fin 0" by code_simp
  show ?thesis
    using a b c
      handleAdd_invalid_amount_noop
        [of "(initial_page (lit ''2024-01-01''))\<lparr>form_amount := lit ''abc''\<rparr>" 1700000000000]
      handleAdd_invalid_amount_noop
        [of "(initial_page (lit ''2024-01-01''))\<lparr>form_amount := lit ''-5''\<rparr>" 1700000000000]
      handleAdd_invalid_amount_noop
        [of "(initial_page (lit ''2024-01-01''))\<lparr>form_amount := lit ''0''\<rparr>" 1700000000000]
    by (simp add: initial_page_def)
qed

section \<open>Adding: accepted amounts\<close>

text \<open>
  An amount that parses to a finite positive number is accepted: the new record is put in
  front of the expenses, with the parsed amount rounded by \<open>Math.round(p * 100) / 100\<close>,
  the trimmed category (or \<open>General\<close>) and the trimmed note.
\<close>

lemma handleAdd_valid:
  assumes "parseFloat (form_amount st) = Fin p" and "0 < p"
  shows "expenses (handleAdd now st) =
           \<lparr>id' = String_of_time now, date = form_date st,
            amount = jdiv (Math_round (jmul (Fin p) (Fin 100))) (Fin 100),
            category = (if String_trim (form_category st) = [] then lit ''General''
                        else String_trim (form_category st)),
            note' = String_trim (form_note st)\<rparr> # expenses st"
  using assms by (simp add: handleAdd_def resetForm_def Let_def)

lemma run_snoc: "run (evs @ [ev]) st = handle ev (run evs st)"
  by (simp add: run_def)

text \<open>The scenario of the specification: 12.345 is stored as 12.35, under \<open>General\<close>.\<close>

lemma handleAdd_scenario:
  "expenses (handleAdd now ((initial_page (lit ''2024-01-01''))
      \<lparr>form_amount := lit ''12.345'', form_category := [], form_note := []\<rparr>))
   = [\<lparr>id' = String_of_time now, date = lit ''2024-01-01'',
       amount = Fin (6952431924753203 / 562949953421312),
       category = lit ''General'', note' = []\<rparr>]"
proof -
  let ?st = "(initial_page (lit ''2024-01-01''))
      \<lparr>form_amount := lit ''12.345'', form_category := [], form_note := []\<rparr>"
  have p: "parseFloat (form_amount ?st) = Fin (6949617174986097 / 562949953421312)"
    by (simp add: parse_12345)
  from handleAdd_valid [OF p, of now] show ?thesis
    by (simp add: initial_page_def cents_12345 String_trim_def trim_start_def
        trim_end_def del: jmul.simps jdiv.simps Math_round.simps)
qed

text \<open>
  From 0.005 on, the rounded amount is positive: the product with 100 is at least 0.5,
  \<open>Math.round\<close> gives at least 1, and a hundredth of it is positive.
\<close>

lemma cents_positive:
  assumes "1 / 200 \<le> p"
  shows "js_lt (Fin 0) (jdiv (Math_round (jmul (Fin p) (Fin 100))) (Fin 100))"
proof -
  have h: "ipow 2 (- 1) = 1 / 2" and s: "ipow 2 (- 7) = 1 / 128"
    by (simp_all add: ipow_def)
  have "ipow 2 (- 1) \<le> p * 100" using assms by (simp add: h)
  from to_double_lower [OF this]
  consider "to_double (p * 100) = PInf"
    | m where "to_double (p * 100) = Fin m" "1 / 2 \<le> m"
    by (auto simp: h)
  then show ?thesis
  proof cases
    case 1
    then show ?thesis by simp
  next
    case 2
    have "of_int 1 \<le> m + 1 / 2" using 2(2) by simp
    then have k: "1 \<le> \<lfloor>m + 1 / 2\<rfloor>" by (simp only: le_floor_iff)
    then have "(of_int 1 :: rat) \<le> of_int \<lfloor>m + 1 / 2\<rfloor>" by (simp only: of_int_le_iff)
    then have "(1::rat) / 100 \<le> of_int \<lfloor>m + 1 / 2\<rfloor> / 100" by (simp add: divide_right_mono)
    then have "ipow 2 (- 7) \<le> of_int \<lfloor>m + 1 / 2\<rfloor> / 100" unfolding s by linarith
    from to_double_lower [OF this]
    have "to_double (of_int \<lfloor>m + 1 / 2\<rfloor> / 100) = PInf
          \<or> (\<exists>y. to_double (of_int \<lfloor>m + 1 / 2\<rfloor> / 100) = Fin y \<and> 1 / 128 \<le> y)"
      by (simp add: s)
    then have "js_lt (Fin 0) (to_double (of_int \<lfloor>m + 1 / 2\<rfloor> / 100))"
      by auto
    then show ?thesis using 2(1) by simp
  qed
qed

text \<open>
  When a hundred times the amount is no longer a double, the product is \<open>Infinity\<close>,
  \<open>Math.round\<close> and the division keep it, and the record is stored with the amount
  \<open>Infinity\<close>. The amount field \<open>1e307\<close> is such an input.
\<close>

lemma handleAdd_amount_overflow:
  assumes "parseFloat (form_amount st) = Fin p" and "ipow 2 1024 \<le> p * 100"
  shows "map amount (expenses (handleAdd now st)) = PInf # map amount (expenses st)"
proof -
  have "0 < p * 100" using assms(2) ipow2_pos [of 1024] by linarith
  then have pos: "0 < p" by simp
  have "jmul (Fin p) (Fin 100) = PInf"
    using to_double_overflow [OF assms(2)] by simp
  then have "jdiv (Math_round (jmul (Fin p) (Fin 100))) (Fin 100) = PInf" by simp
  then show ?thesis
    using handleAdd_valid [OF assms(1) pos, of now] by simp
qed

lemma overflow_1e307:
  "isFinite (parseFloat (lit ''1e307''))
   \<and> js_lt (Fin 0) (parseFloat (lit ''1e307''))
   \<and> map amount (expenses (handleAdd now (amount_page ''1e307''))) = [PInf]"
proof -
  have "0 < (10::rat) ^ 307" by simp
  from to_double_finite [OF this bounds_1e307(2)]
  obtain p where p: "to_double (10 ^ 307) = Fin p" by blast
  from to_double_lower [OF bounds_1e307(1)] p have lo: "ipow 2 1019 \<le> p" by simp
  have "ipow 2 1024 = ipow 2 1019 * 32"
    using ipow2_add [of 1019 5] by (simp add: ipow2_nat)
  also have "\<dots> \<le> p * 100" using lo ipow2_pos [of 1019] by linarith
  finally have big: "ipow 2 1024 \<le> p * 100" .
  have "0 < p" using lo ipow2_pos [of 1019] by linarith
  have pf: "parseFloat (form_amount (amount_page ''1e307'')) = Fin p"
    using p by (simp add: parseFloat_1e307 amount_page_def)
  have e: "expenses (amount_page ''1e307'') = []" by (simp add: amount_page_def initial_page_def)
  show ?thesis
    using handleAdd_amount_overflow [OF pf big, of now] e pf \<open>0 < p\<close>
    by (simp add: amount_page_def)
qed

text \<open>
  Claim C1, as stated, fails, on whatever is rounded. The amount is computed in double
  arithmetic as \<open>Math.round(p * 100) / 100\<close>, with the parsed double \<open>p\<close>:
  \<^item> the field \<open>1.005\<close> is stored as 1, not as 1.01, the decimal typed rounded to two
    places: the parsed double lies below 1.005 and its product with 100 below 100.5;
  \<^item> the field \<open>0.015\<close> is stored as 0.02, not as 0.01, the parsed double rounded to two
    places: the parsed double lies below 0.015, but its product with 100 is rounded to
    the double 1.5, and \<open>Math.round\<close> takes that to 2;
  \<^item> the field \<open>1e307\<close> parses to a finite positive number and is stored as \<open>Infinity\<close>.
\<close>

theorem handleAdd_rounding_counterexample:
  "map amount (expenses (handleAdd 1700000000000 (amount_page ''1.005''))) = [Fin 1]
   \<and> to_double (round_half_up_2 (1005 / 1000)) = Fin (4548635623644201 / 4503599627370496)
   \<and> parseFloat (lit ''0.015'') = Fin (1080863910568919 / 72057594037927936)
   \<and> round_half_up_2 (1080863910568919 / 72057594037927936) = 1 / 100
   \<and> to_double (1 / 100) = Fin (5764607523034235 / 576460752303423488)
   \<and> map amount (expenses (handleAdd 1700000000000 (amount_page ''0.015'')))
       = [Fin (5764607523034235 / 288230376151711744)]
   \<and> isFinite (parseFloat (lit ''1e307''))
   \<and> js_lt (Fin 0) (parseFloat (lit ''1e307''))
   \<and> map amount (expenses (handleAdd 1700000000000 (amount_page ''1e307''))) = [PInf]"
proof -
  have a: "parseFloat (form_amount (amount_page ''1.005''))
      = Fin (1131529406376837 / 1125899906842624)"
    by (simp add: amount_page_def parse_rounding)
  have b: "parseFloat (form_amount (amount_page ''0.015''))
      = Fin (1080863910568919 / 72057594037927936)"
    by (simp add: amount_page_def parse_rounding)
  have e: "expenses (amount_page x) = []" for x
    by (simp add: amount_page_def initial_page_def)
  have 1: "map amount (expenses (handleAdd 1700000000000 (amount_page ''1.005''))) = [Fin 1]"
    using handleAdd_valid [OF a, of 1700000000000]
    by (simp add: e cents_rounding del: jmul.simps jdiv.simps Math_round.simps)
  have 2: "map amount (expenses (handleAdd 1700000000000 (amount_page ''0.015'')))
       = [Fin (5764607523034235 / 288230376151711744)]"
    using handleAdd_valid [OF b, of 1700000000000]
    by (simp add: e cents_rounding del: jmul.simps jdiv.simps Math_round.simps)
  from 1 2 doubles_rounding parse_rounding(2) round_parsed overflow_1e307 [of 1700000000000]
  show ?thesis by (intro conjI) (simp_all only:)
qed

text \<open>
  Claim C1, amended. When the amount field parses to a finite number \<open>p > 0\<close> and the
  product \<open>p * 100\<close> is still a finite double \<open>m\<close> (the double nearest to the exact
  product), the expenses after \<open>handleAdd\<close> are the new record followed by the expenses
  before, one record more. The new record has the id \<open>String(Date.now())\<close>, the date of
  the form, the amount \<open>Math.round(p * 100) / 100\<close>, which is the double nearest to
  \<open>k / 100\<close> for the integer \<open>k\<close> nearest to \<open>m\<close> (the larger one at a tie), the trimmed
  category, or \<open>General\<close> when that is empty, and the trimmed note. In particular the
  amount 12.345 with an empty category and note is stored as 12.35 under \<open>General\<close>.
\<close>

theorem handleAdd_accepts:
  assumes "parseFloat (form_amount st) = Fin p" and "0 < p"
    and "jmul (Fin p) (Fin 100) = Fin m"
  shows "expenses (handleAdd now st) =
           \<lparr>id' = String_of_time now, date = form_date st,
            amount = to_double (of_int \<lfloor>m + 1 / 2\<rfloor> / 100),
            category = (if String_trim (form_category st) = [] then lit ''General''
                        else String_trim (form_category st)),
            note' = String_trim (form_note st)\<rparr> # expenses st
         \<and> length (expenses (handleAdd now st)) = Suc (length (expenses st))
         \<and> to_double (p * 100) = Fin m
         \<and> is_trim_of (form_category st) (String_trim (form_category st))
         \<and> is_trim_of (form_note st) (String_trim (form_note st))
         \<and> expenses (handleAdd now ((initial_page (lit ''2024-01-01''))
               \<lparr>form_amount := lit ''12.345'', form_category := [], form_note := []\<rparr>))
             = [\<lparr>id' = String_of_time now, date = lit ''2024-01-01'',
                 amount = Fin (6952431924753203 / 562949953421312),
                 category = lit ''General'', note' = []\<rparr>]
         \<and> to_double (1235 / 100) = Fin (6952431924753203 / 562949953421312)"
proof -
  have "jdiv (Math_round (jmul (Fin p) (Fin 100))) (Fin 100)
      = to_double (of_int \<lfloor>m + 1 / 2\<rfloor> / 100)"
    unfolding assms(3) by simp
  then have 1: "expenses (handleAdd now st) =
           \<lparr>id' = String_of_time now, date = form_date st,
            amount = to_double (of_int \<lfloor>m + 1 / 2\<rfloor> / 100),
            category = (if String_trim (form_category st) = [] then lit ''General''
                        else String_trim (form_category st)),
            note' = String_trim (form_note st)\<rparr> # expenses st"
    using handleAdd_valid [OF assms(1,2), of now] by (simp only:)
  then have 2: "length (expenses (handleAdd now st)) = Suc (length (expenses st))" by simp
  have 3: "to_double (p * 100) = Fin m" using assms(3) by simp
  from 1 2 3 is_trim_of_String_trim handleAdd_scenario [of now] double_1235
  show ?thesis by (intro conjI) (simp_all only:)
qed

theorem handleAdd_accepts_witness:
  "parseFloat (form_amount lunch_page) = Fin (6949617174986097 / 562949953421312)
   \<and> jmul (Fin (6949617174986097 / 562949953421312)) (Fin 100) = Fin (2469 / 2)
   \<and> expenses (handleAdd 1700000000000 lunch_page)
       = [\<lparr>id' = lit ''1700000000000'', date = lit ''2024-01-01'',
           amount = Fin (6952431924753203 / 562949953421312),
           category = lit ''Food'', note' = lit ''lunch''\<rparr>]"
proof -
  have p: "parseFloat (form_amount lunch_page) = Fin (6949617174986097 / 562949953421312)"
    by (simp add: lunch_page_def parse_12345)
  have pos: "(0::rat) < 6949617174986097 / 562949953421312" by simp
  have f: "lit ''Food'' \<noteq> []" by (simp add: lit_def)
  have "expenses (handleAdd 1700000000000 lunch_page) =
           \<lparr>id' = String_of_time 1700000000000, date = form_date lunch_page,
            amount = to_double (of_int \<lfloor>(2469 / 2 :: rat) + 1 / 2\<rfloor> / 100),
            category = (if String_trim (form_category lunch_page) = [] then lit ''General''
                        else String_trim (form_category lunch_page)),
            note' = String_trim (form_note lunch_page)\<rparr> # expenses lunch_page"
    using handleAdd_accepts [OF p pos product_12345, of 1700000000000] by blast
  then have "expenses (handleAdd 1700000000000 lunch_page)
       = [\<lparr>id' = lit ''1700000000000'', date = lit ''2024-01-01'',
           amount = Fin (6952431924753203 / 562949953421312),
           category = lit ''Food'', note' = lit ''lunch''\<rparr>]"
    unfolding quotient_1235 String_of_sample_time
    by (simp add: lunch_page_def initial_page_def trim_lunch f)
  with p product_12345 show ?thesis by (intro conjI)
qed

section \<open>The ids that adding assigns are numeric\<close>

lemma handle_ids:
  assumes "\<forall>e \<in> set (expenses st). \<exists>t. id' e = String_of_time t"
  shows "\<forall>e \<in> set (expenses (handle ev st)). \<exists>t. id' e = String_of_time t"
proof (cases ev)
  case (Submit now)
  show ?thesis
  proof (cases "\<not> isFinite (parseFloat (form_amount st))
      \<or> js_le (parseFloat (form_amount st)) (Fin 0)")
    case True
    then have "handleAdd now st = st" by (simp add: handleAdd_def)
    then show ?thesis using assms Submit by simp
  next
    case False
    then obtain p where "parseFloat (form_amount st) = Fin p" "0 < p"
      by (cases "parseFloat (form_amount st)") auto
    from handleAdd_valid [OF this, of now] show ?thesis using assms Submit by auto
  qed
next
  case (Delete i)
  then show ?thesis using assms by (simp add: handleDelete_def)
qed (use assms in simp_all)

text \<open>
  Whatever the events, every id in the store is the decimal string of a clock reading,
  so \<open>Number\<close> of it is a number, never NaN.
\<close>

lemma reachable_ids_numeric:
  "\<forall>e \<in> set (expenses (run evs (initial_page today))). id_number e \<noteq> NaN"
proof -
  have "\<forall>e \<in> set (expenses (run evs (initial_page today))). \<exists>t. id' e = String_of_time t"
  proof (induction evs rule: rev_induct)
    case Nil
    then show ?case by (simp add: run_def initial_page_def)
  next
    case (snoc ev evs)
    from handle_ids [OF this] show ?case by (simp add: run_snoc)
  qed
  then show ?thesis
    by (auto simp: id_number_def Number_String_of_time to_double_not_NaN)
qed

section \<open>Deleting\<close>

lemma filter_id_remove1:
  "distinct (map id' es) \<Longrightarrow> r \<in> set es \<Longrightarrow> filter (\<lambda>e. id' e \<noteq> id' r) es = remove1 r es"
proof (induction es)
  case Nil
  then show ?case by simp
next
  case (Cons x xs)
  show ?case
  proof (cases "x = r")
    case True
    have "id' r \<notin> id' ` set xs" using Cons.prems(1) True by simp
    then have "filter (\<lambda>e. id' e \<noteq> id' r) xs = xs"
      by (intro filter_True) (metis image_eqI)
    with True show ?thesis by simp
  next
    case False
    then have "r \<in> set xs" using Cons.prems(2) by simp
    moreover have "id' x \<noteq> id' r"
      using Cons.prems(1) \<open>r \<in> set xs\<close> by auto
    ultimately show ?thesis using Cons False by simp
  qed
qed

text \<open>
  Claim C3. \<open>handleDelete(id)\<close> keeps exactly the records with another id. When no record
  has the id, nothing changes. When the ids of the store are distinct and a record \<open>r\<close>
  has the id, the result is the store without \<open>r\<close>, one record shorter.
\<close>

theorem handleDelete_removes_exactly:
  "(\<forall>e. e \<in> set (expenses (handleDelete i st)) \<longleftrightarrow> e \<in> set (expenses st) \<and> id' e \<noteq> i)
   \<and> (i \<notin> set (map id' (expenses st)) \<longrightarrow> handleDelete i st = st)
   \<and> (distinct (map id' (expenses st)) \<and> r \<in> set (expenses st) \<and> id' r = i \<longrightarrow>
        expenses (handleDelete i st) = remove1 r (expenses st)
        \<and> length (expenses (handleDelete i st)) + 1 = length (expenses st))"
proof (intro conjI allI impI)
  fix e
  show "e \<in> set (expenses (handleDelete i st)) \<longleftrightarrow> e \<in> set (expenses st) \<and> id' e \<noteq> i"
    by (simp add: handleDelete_def)
next
  assume "i \<notin> set (map id' (expenses st))"
  then have "filter (\<lambda>e. id' e \<noteq> i) (expenses st) = expenses st"
    by (intro filter_True) auto
  then show "handleDelete i st = st" by (simp add: handleDelete_def)
next
  assume h: "distinct (map id' (expenses st)) \<and> r \<in> set (expenses st) \<and> id' r = i"
  then show eq: "expenses (handleDelete i st) = remove1 r (expenses st)"
    using filter_id_remove1 [of "expenses st" r] by (auto simp: handleDelete_def)
  from h have "0 < length (expenses st)"
    by (auto simp: length_pos_if_in_set)
  with h have "length (remove1 r (expenses st)) + 1 = length (expenses st)"
    by (simp add: length_remove1)
  with eq show "length (expenses (handleDelete i st)) + 1 = length (expenses st)" by simp
qed


theorem handleDelete_removes_exactly_witness:
  "distinct (map id' (expenses (sample_page [sample_a, sample_b, sample_d])))
   \<and> expenses (handleDelete (lit ''1700000000001'') (sample_page [sample_a, sample_b, sample_d]))
       = [sample_a, sample_d]
   \<and> handleDelete (lit ''1600000000000'') (sample_page [sample_a, sample_b, sample_d])
       = sample_page [sample_a, sample_b, sample_d]"
proof -
  let ?S = "sample_page [sample_a, sample_b, sample_d]"
  have d: "distinct (map id' (expenses ?S))"
    by (simp add: sample_defs)
  have m: "sample_b \<in> set (expenses ?S)"
    by (simp add: sample_defs)
  have i: "id' sample_b = lit ''1700000000001''"
    by (simp add: sample_defs)
  have n: "lit ''1600000000000'' \<notin> set (map id' (expenses ?S))"
    by (simp add: sample_defs)
  have r: "remove1 sample_b (expenses ?S) = [sample_a, sample_d]"
    by (simp add: sample_defs)
  have "expenses (handleDelete (lit ''1700000000001'') ?S) = remove1 sample_b (expenses ?S)"
    using handleDelete_removes_exactly [of "lit ''1700000000001''" ?S sample_b] d m i
    by blast
  moreover have "handleDelete (lit ''1600000000000'') ?S = ?S"
    using handleDelete_removes_exactly [of "lit ''1600000000000''" ?S sample_b] n
    by blast
  ultimately show ?thesis using d r by simp
qed

section \<open>Deleting from a store with repeated ids\<close>

lemma count_list_filter:
  "count_list (filter P xs) e = (if P e then count_list xs e else 0)"
  by (induction xs) auto

text \<open>
  Claim C10. In any store, also one where several records share an id, \<open>handleDelete(id)\<close>
  leaves no record with that id, keeps every other record as often as it occurred, and
  keeps the remaining records in their relative order: the result is a subsequence of the
  store, namely the records with another id in the order they had.
\<close>

theorem handleDelete_removes_all_keeps_order:
  "(\<forall>e \<in> set (expenses (handleDelete i st)). id' e \<noteq> i)
   \<and> (\<forall>e. id' e \<noteq> i \<longrightarrow>
         count_list (expenses (handleDelete i st)) e = count_list (expenses st) e)
   \<and> subseq (expenses (handleDelete i st)) (expenses st)
   \<and> expenses (handleDelete i st) = filter (\<lambda>e. id' e \<noteq> i) (expenses st)"
  by (simp add: handleDelete_def count_list_filter)

theorem handleDelete_removes_all_keeps_order_witness:
  "expenses (handleDelete (lit ''1700000000001'')
      (sample_page [sample_b, sample_a, sample_c, sample_d, sample_b]))
    = [sample_a, sample_d]
   \<and> subseq [sample_a, sample_d] [sample_b, sample_a, sample_c, sample_d, sample_b]
   \<and> count_list [sample_a, sample_d] sample_d
       = count_list [sample_b, sample_a, sample_c, sample_d, sample_b] sample_d"
proof -
  let ?S = "sample_page [sample_b, sample_a, sample_c, sample_d, sample_b]"
  note T = handleDelete_removes_all_keeps_order [of "lit ''1700000000001''" ?S]
  have f: "filter (\<lambda>e. id' e \<noteq> lit ''1700000000001'') (expenses ?S) = [sample_a, sample_d]"
    by (simp add: sample_defs)
  have e: "expenses ?S = [sample_b, sample_a, sample_c, sample_d, sample_b]"
    by (simp add: sample_page_def)
  have i: "id' sample_d \<noteq> lit ''1700000000001''"
    by (simp add: sample_defs)
  have 1: "expenses (handleDelete (lit ''1700000000001'') ?S) = [sample_a, sample_d]"
    using T f by metis
  have 2: "subseq (expenses (handleDelete (lit ''1700000000001'') ?S)) (expenses ?S)"
    using T by blast
  have 3: "count_list (expenses (handleDelete (lit ''1700000000001'') ?S)) sample_d
            = count_list (expenses ?S) sample_d"
    using T i by blast
  show ?thesis
    using 1 2 3 unfolding 1 e by (intro conjI)
qed

section \<open>The derived views are pure\<close>

text \<open>
  Claim C9. Computing the expenses of the selected date and their total is pure. Run on
  the array at address \<open>a\<close> of any heap, \<open>filter\<close> and \<open>sort\<close> return a new array (its
  address is not \<open>a\<close>) whose content is a function of the content of the input array and
  of the date alone, so two runs on equal inputs give equal results; the input array and
  every other array that existed keep their content (\<open>sort\<close> works in place, but on the
  array \<open>filter\<close> has just made). The total is a function of the content of the array it
  reads, and leaves the whole heap as it was.
\<close>

theorem derived_views_pure:
  assumes "array_at h a = Some es"
  shows "(\<exists>h'. expensesForSelectedDate_h a d h = Some (length h, h')
            \<and> length h \<noteq> a
            \<and> array_at h' (length h) = Some (expensesForSelectedDate es d)
            \<and> array_at h' a = Some es
            \<and> (\<forall>c. c < length h \<longrightarrow> array_at h' c = array_at h c)
            \<and> totalForSelectedDate_h (length h) h'
                = Some (totalForSelectedDate (expensesForSelectedDate es d), h'))
         \<and> totalForSelectedDate_h a h = Some (totalForSelectedDate es, h)"
proof -
  from assms have a: "a < length h" and es: "h ! a = es"
    by (auto simp: array_at_def split: if_splits)
  let ?h' = "(h @ [filter (\<lambda>e. date e = d) es])[length h :=
      Array_sort by_id_desc (filter (\<lambda>e. date e = d) es)]"
  have 1: "expensesForSelectedDate_h a d h = Some (length h, ?h')"
    using assms
    by (simp add: expensesForSelectedDate_h_def Array_filter_h_def Array_sort_h_def array_at_def)
  have 2: "array_at ?h' (length h) = Some (expensesForSelectedDate es d)"
    by (simp add: array_at_def expensesForSelectedDate_def)
  have 3: "array_at ?h' c = array_at h c" if "c < length h" for c
    using that by (simp add: array_at_def nth_append)
  have 4: "array_at ?h' a = Some es"
    using 3 [OF a] assms by simp
  have 5: "totalForSelectedDate_h (length h) ?h'
            = Some (totalForSelectedDate (expensesForSelectedDate es d), ?h')"
    using 2 by (simp add: totalForSelectedDate_h_def Array_reduce_h_def totalForSelectedDate_def)
  have 6: "totalForSelectedDate_h a h = Some (totalForSelectedDate es, h)"
    using assms by (simp add: totalForSelectedDate_h_def Array_reduce_h_def totalForSelectedDate_def)
  from a have "length h \<noteq> a" by simp
  with 1 2 3 4 5 6 show ?thesis by blast
qed

lemma total_ab: "totalForSelectedDate [sample_a, sample_b] = Fin (31 / 2)"
  by code_simp

theorem derived_views_pure_witness:
  "array_at [[sample_a, sample_b]] 0 = Some [sample_a, sample_b]
   \<and> totalForSelectedDate_h 0 [[sample_a, sample_b]] = Some (Fin (31 / 2), [[sample_a, sample_b]])
   \<and> (\<exists>h'. expensesForSelectedDate_h 0 (lit ''2024-01-02'') [[sample_a, sample_b]] = Some (1, h')
         \<and> array_at h' 0 = Some [sample_a, sample_b])"
proof -
  have a: "array_at [[sample_a, sample_b]] 0 = Some [sample_a, sample_b]"
    by (simp add: array_at_def)
  note T = derived_views_pure [OF a, of "lit ''2024-01-02''"]
  have "totalForSelectedDate_h 0 [[sample_a, sample_b]]
          = Some (totalForSelectedDate [sample_a, sample_b], [[sample_a, sample_b]])"
    using T by blast
  moreover have "\<exists>h'. expensesForSelectedDate_h 0 (lit ''2024-01-02'') [[sample_a, sample_b]]
                    = Some (length [[sample_a, sample_b]], h')
                  \<and> array_at h' 0 = Some [sample_a, sample_b]"
    using T by blast
  ultimately show ?thesis using a total_ab by simp
qed

section \<open>The expenses of the selected date\<close>

lemma js_lt_imp_le: "js_lt x y \<Longrightarrow> js_le x y"
  by (cases x; cases y) auto

lemma js_not_lt_le: "x \<noteq> NaN \<Longrightarrow> y \<noteq> NaN \<Longrightarrow> \<not> js_lt x y \<Longrightarrow> js_le y x"
  by (cases x; cases y) auto

lemma js_le_trans: "js_le x y \<Longrightarrow> js_le y z \<Longrightarrow> js_le x z"
  by (cases x; cases y; cases z) auto

lemma is_double_to_double: "is_double (to_double x)"
  using to_double_grid [of x] by (cases "to_double x") (auto simp: is_double_def)

lemma jsub_sign:
  assumes "is_double x" and "is_double y" and "x \<noteq> NaN" and "y \<noteq> NaN"
  shows "js_lt (Fin 0) (jsub y x) \<longleftrightarrow> js_lt x y"
proof (cases x)
  case (Fin a)
  note xa = this
  show ?thesis
  proof (cases y)
    case (Fin b)
    from assms(1) xa obtain na :: int where a: "a = of_int na * ipow 2 (- 1074)"
      by (auto simp: is_double_def)
    from assms(2) Fin obtain nb :: int where b: "b = of_int nb * ipow 2 (- 1074)"
      by (auto simp: is_double_def)
    have s: "jsub y x = to_double (b - a)" by (simp add: jsub_def xa Fin)
    show ?thesis
    proof (cases "a < b")
      case True
      then have "of_int na * ipow 2 (- 1074) < of_int nb * ipow 2 (- 1074)" by (simp add: a b)
      then have "(of_int na :: rat) < of_int nb" by (simp add: mult_less_cancel_right)
      then have "na < nb" by (simp only: of_int_less_iff)
      then have "1 \<le> nb - na" by simp
      then have "(of_int 1 :: rat) \<le> of_int (nb - na)" by (simp only: of_int_le_iff)
      then have "1 * ipow 2 (- 1074) \<le> of_int (nb - na) * ipow 2 (- 1074)"
        by (intro mult_right_mono) simp_all
      then have "ipow 2 (- 1074) \<le> b - a" by (simp add: a b algebra_simps)
      from to_double_grid_pos [OF this] have "js_lt (Fin 0) (to_double (b - a))" by auto
      then show ?thesis using True unfolding s by (simp add: xa Fin)
    next
      case False
      then have "b - a \<le> 0" by simp
      from to_double_nonpos [OF this] have "\<not> js_lt (Fin 0) (to_double (b - a))" by auto
      then show ?thesis using False unfolding s by (simp add: xa Fin)
    qed
  qed (use assms xa in \<open>simp_all add: jsub_def\<close>)
qed (use assms in \<open>cases y; simp add: jsub_def\<close>)+

lemma set_insert_by: "set (insert_by cmp x ys) = insert x (set ys)"
  by (induction ys) auto

lemma mset_insert_by: "mset (insert_by cmp x ys) = add_mset x (mset ys)"
  by (induction ys) auto

lemma mset_Array_sort: "mset (Array_sort cmp xs) = mset xs"
  by (induction xs) (simp_all add: Array_sort_def mset_insert_by)

lemma set_Array_sort: "set (Array_sort cmp xs) = set xs"
  using mset_Array_sort [of cmp xs] by (metis set_mset_mset)

lemma sorted_insert_by:
  assumes cmp: "\<And>a b. a \<in> insert x (set ys) \<Longrightarrow> b \<in> insert x (set ys) \<Longrightarrow>
      js_lt (Fin 0) (cmp a b) \<longleftrightarrow> js_lt (k a) (k b)"
    and num: "\<And>a. a \<in> insert x (set ys) \<Longrightarrow> k a \<noteq> NaN"
    and sorted: "sorted_wrt (\<lambda>a b. js_le (k b) (k a)) ys"
  shows "sorted_wrt (\<lambda>a b. js_le (k b) (k a)) (insert_by cmp x ys)"
  using assms
proof (induction ys)
  case Nil
  then show ?case by simp
next
  case (Cons y ys)
  show ?case
  proof (cases "js_lt (Fin 0) (cmp x y)")
    case True
    then have xy: "js_lt (k x) (k y)" using Cons.prems(1) [of x y] by simp
    have "sorted_wrt (\<lambda>a b. js_le (k b) (k a)) (insert_by cmp x ys)"
      using Cons.prems by (intro Cons.IH) auto
    moreover have "js_le (k z) (k y)" if "z \<in> set (insert_by cmp x ys)" for z
      using that xy Cons.prems(3) by (auto simp: set_insert_by js_lt_imp_le)
    ultimately show ?thesis using True by simp
  next
    case False
    then have "\<not> js_lt (k x) (k y)" using Cons.prems(1) [of x y] by simp
    then have yx: "js_le (k y) (k x)"
      using Cons.prems(2) [of x] Cons.prems(2) [of y] by (simp add: js_not_lt_le)
    have "js_le (k z) (k x)" if "z \<in> set ys" for z
      using that Cons.prems(3) yx js_le_trans [of "k z" "k y" "k x"] by auto
    then show ?thesis using False yx Cons.prems(3) by simp
  qed
qed

lemma sorted_Array_sort:
  assumes cmp: "\<And>a b. a \<in> set xs \<Longrightarrow> b \<in> set xs \<Longrightarrow>
      js_lt (Fin 0) (cmp a b) \<longleftrightarrow> js_lt (k a) (k b)"
    and num: "\<And>a. a \<in> set xs \<Longrightarrow> k a \<noteq> NaN"
  shows "sorted_wrt (\<lambda>a b. js_le (k b) (k a)) (Array_sort cmp xs)"
  using assms
proof (induction xs)
  case Nil
  then show ?case by (simp add: Array_sort_def)
next
  case (Cons x xs)
  have IH: "sorted_wrt (\<lambda>a b. js_le (k b) (k a)) (Array_sort cmp xs)"
    using Cons.prems by (intro Cons.IH) auto
  have "sorted_wrt (\<lambda>a b. js_le (k b) (k a)) (insert_by cmp x (Array_sort cmp xs))"
    using Cons.prems IH by (intro sorted_insert_by) (auto simp: set_Array_sort)
  then show ?case by (simp add: Array_sort_def)
qed


lemma is_double_Fin0: "is_double (Fin 0)"
proof -
  have "(0::rat) = of_int 0 * ipow 2 (- 1074)" by simp
  then show ?thesis unfolding is_double_def by (simp only: jsnum.case) blast
qed

lemma is_double_special: "is_double NaN" "is_double PInf" "is_double NInf"
  by (simp_all add: is_double_def)

lemma str_decimal_literal_is_double:
  "str_decimal_literal s = Some (v, r) \<Longrightarrow> is_double v"
  by (auto simp: str_decimal_literal_def Let_def is_double_to_double is_double_special
      split: prod.splits if_splits list.splits)

lemma Number_is_double: "is_double (Number s)"
  by (auto simp: Number_def Let_def is_double_to_double is_double_Fin0 is_double_special
      str_decimal_literal_is_double split: option.splits list.splits prod.splits)

lemma by_id_desc_sign:
  assumes "id_number a \<noteq> NaN" and "id_number b \<noteq> NaN"
  shows "js_lt (Fin 0) (by_id_desc a b) \<longleftrightarrow> js_lt (id_number a) (id_number b)"
  using jsub_sign [of "id_number a" "id_number b"] assms
  by (simp add: by_id_desc_def id_number_def Number_is_double)

lemma filter_insert_by:
  assumes "\<And>y. y \<in> set ys \<Longrightarrow> js_lt (Fin 0) (cmp x y) \<Longrightarrow> k y \<noteq> k x"
  shows "filter (\<lambda>e. k e = n) (insert_by cmp x ys)
         = (if k x = n then x # filter (\<lambda>e. k e = n) ys else filter (\<lambda>e. k e = n) ys)"
  using assms
proof (induction ys)
  case Nil
  then show ?case by simp
next
  case (Cons y ys)
  have IH: "filter (\<lambda>e. k e = n) (insert_by cmp x ys)
         = (if k x = n then x # filter (\<lambda>e. k e = n) ys else filter (\<lambda>e. k e = n) ys)"
    using Cons.prems by (intro Cons.IH) simp_all
  show ?case
  proof (cases "js_lt (Fin 0) (cmp x y)")
    case True
    then have "k y \<noteq> k x" using Cons.prems [of y] by simp
    then show ?thesis using True IH by auto
  next
    case False
    then show ?thesis by simp
  qed
qed

lemma js_lt_irrefl: "\<not> js_lt x x"
  by (cases x) auto

lemma filter_Array_sort:
  assumes "\<And>a b. a \<in> set xs \<Longrightarrow> b \<in> set xs \<Longrightarrow>
      js_lt (Fin 0) (cmp a b) \<longleftrightarrow> js_lt (k a) (k b)"
  shows "filter (\<lambda>e. k e = n) (Array_sort cmp xs) = filter (\<lambda>e. k e = n) xs"
  using assms
proof (induction xs)
  case Nil
  then show ?case by (simp add: Array_sort_def)
next
  case (Cons x xs)
  have IH: "filter (\<lambda>e. k e = n) (Array_sort cmp xs) = filter (\<lambda>e. k e = n) xs"
    using Cons.prems by (intro Cons.IH) auto
  have "k y \<noteq> k x" if "y \<in> set (Array_sort cmp xs)" "js_lt (Fin 0) (cmp x y)" for y
  proof
    assume e: "k y = k x"
    from that have "js_lt (k x) (k y)" using Cons.prems [of x y] by (simp add: set_Array_sort)
    with e show False by (simp add: js_lt_irrefl)
  qed
  from filter_insert_by [of "Array_sort cmp xs" cmp x k n, OF this] IH
  show ?case by (simp add: Array_sort_def)
qed

text \<open>
  Claim C4, as stated for every store, fails: next to an id that is not numeric the
  comparison \<open>Number(b.id) - Number(a.id)\<close> is NaN, which \<open>sort\<close> takes for 0. In the store
  with the ids \<open>1700000000001\<close>, \<open>abc\<close>, \<open>1700000000002\<close>, all of one date, both
  comparisons that the sort makes involve \<open>abc\<close>; nothing moves, and the record with the
  smaller numeric id stays before the one with the larger.
\<close>

lemma id_numbers:
  "id_number (with_id ''1700000000001'') = Fin 1700000000001"
  "id_number (with_id ''1700000000002'') = Fin 1700000000002"
  "id_number (with_id ''abc'') = NaN"
  by code_simp+

lemma unsorted_result:
  "expensesForSelectedDate
     [with_id ''1700000000001'', with_id ''abc'', with_id ''1700000000002''] (lit ''2024-01-01'')
   = [with_id ''1700000000001'', with_id ''abc'', with_id ''1700000000002'']"
  by code_simp

theorem expensesForSelectedDate_order_counterexample:
  "expensesForSelectedDate
     [with_id ''1700000000001'', with_id ''abc'', with_id ''1700000000002''] (lit ''2024-01-01'')
   = [with_id ''1700000000001'', with_id ''abc'', with_id ''1700000000002'']
   \<and> id_number (with_id ''1700000000001'') = Fin 1700000000001
   \<and> id_number (with_id ''1700000000002'') = Fin 1700000000002
   \<and> \<not> sorted_wrt (\<lambda>a b. js_le (id_number b) (id_number a))
        (expensesForSelectedDate
           [with_id ''1700000000001'', with_id ''abc'', with_id ''1700000000002'']
           (lit ''2024-01-01''))"
  unfolding unsorted_result by (simp add: id_numbers)

text \<open>
  Claim C4, amended. When the ids of the records of the date \<open>d\<close> are numeric strings
  (\<open>Number\<close> of none of them is NaN; the ids that \<open>handleAdd\<close> assigns are such), the
  expenses of \<open>d\<close> are exactly the records of the store whose date is \<open>d\<close>, each as often as
  it occurs, ordered by numeric id with the largest first; records with equal numeric ids
  keep the order they have in the store.
\<close>

theorem expensesForSelectedDate_sorted:
  assumes "\<forall>e \<in> set es. date e = d \<longrightarrow> id_number e \<noteq> NaN"
  shows "mset (expensesForSelectedDate es d) = mset (filter (\<lambda>e. date e = d) es)
         \<and> sorted_wrt (\<lambda>a b. js_le (id_number b) (id_number a)) (expensesForSelectedDate es d)
         \<and> (\<forall>n. filter (\<lambda>e. id_number e = n) (expensesForSelectedDate es d)
                 = filter (\<lambda>e. id_number e = n) (filter (\<lambda>e. date e = d) es))"
proof -
  let ?xs = "filter (\<lambda>e. date e = d) es"
  have num: "id_number a \<noteq> NaN" if "a \<in> set ?xs" for a
    using that assms by simp
  have cmp: "js_lt (Fin 0) (by_id_desc a b) \<longleftrightarrow> js_lt (id_number a) (id_number b)"
    if "a \<in> set ?xs" "b \<in> set ?xs" for a b
    using that by (intro by_id_desc_sign num)
  have 1: "mset (expensesForSelectedDate es d) = mset ?xs"
    by (simp add: expensesForSelectedDate_def mset_Array_sort)
  have 2: "sorted_wrt (\<lambda>a b. js_le (id_number b) (id_number a)) (expensesForSelectedDate es d)"
    unfolding expensesForSelectedDate_def using cmp num by (rule sorted_Array_sort)
  have 3: "filter (\<lambda>e. id_number e = n) (expensesForSelectedDate es d)
            = filter (\<lambda>e. id_number e = n) ?xs" for n
    unfolding expensesForSelectedDate_def using cmp by (rule filter_Array_sort)
  from 1 2 3 show ?thesis by blast
qed

lemma sorted_result:
  "expensesForSelectedDate
     [with_id ''1700000000001'', with_id ''1700000000002'', sample_c] (lit ''2024-01-01'')
   = [with_id ''1700000000002'', with_id ''1700000000001'']"
  by code_simp

theorem expensesForSelectedDate_sorted_witness:
  "expensesForSelectedDate
     [with_id ''1700000000001'', with_id ''1700000000002'', sample_c] (lit ''2024-01-01'')
   = [with_id ''1700000000002'', with_id ''1700000000001'']
   \<and> sorted_wrt (\<lambda>a b. js_le (id_number b) (id_number a))
       [with_id ''1700000000002'', with_id ''1700000000001'']
   \<and> mset [with_id ''1700000000002'', with_id ''1700000000001'']
       = mset (filter (\<lambda>e. date e = lit ''2024-01-01'')
           [with_id ''1700000000001'', with_id ''1700000000002'', sample_c])"
proof -
  let ?es = "[with_id ''1700000000001'', with_id ''1700000000002'', sample_c]"
  have d: "date sample_c \<noteq> lit ''2024-01-01''"
    by (simp add: sample_c_def lit_def)
  have h: "\<forall>e \<in> set ?es. date e = lit ''2024-01-01'' \<longrightarrow> id_number e \<noteq> NaN"
    using d by (simp add: id_numbers)
  note T = expensesForSelectedDate_sorted [OF h]
  have "sorted_wrt (\<lambda>a b. js_le (id_number b) (id_number a))
          (expensesForSelectedDate ?es (lit ''2024-01-01''))"
    using T by blast
  moreover have "mset (expensesForSelectedDate ?es (lit ''2024-01-01''))
      = mset (filter (\<lambda>e. date e = lit ''2024-01-01'') ?es)"
    using T by blast
  ultimately show ?thesis unfolding sorted_result by blast
qed

section \<open>The total of the selected date\<close>

lemma tenths_amounts:
  "amount (tenths 1) = Fin (3602879701896397 / 36028797018963968)"
  "amount (tenths 2) = Fin (3602879701896397 / 18014398509481984)"
  "amount (tenths 3) = Fin (5404319552844595 / 18014398509481984)"
  by code_simp+

lemma tenths_sums:
  "jadd (jadd (jadd (Fin 0) (Fin (3602879701896397 / 36028797018963968)))
      (Fin (3602879701896397 / 18014398509481984))) (Fin (5404319552844595 / 18014398509481984))
    = Fin (1351079888211149 / 2251799813685248)"
  "jadd (jadd (Fin 0) (Fin (3602879701896397 / 36028797018963968)))
      (jadd (jadd (Fin 0) (Fin (3602879701896397 / 18014398509481984)))
        (Fin (5404319552844595 / 18014398509481984)))
    = Fin (5404319552844595 / 9007199254740992)"
  by code_simp+

text \<open>
  Claim C5, as stated, fails: the total is a sum of doubles taken from left to right, and
  the addition of doubles is not associative. For the amounts 0.1, 0.2 and 0.3 the total
  of the whole list is 0.6000000000000001, while the total of the first record plus the
  total of the other two is 0.6.
\<close>

theorem total_not_additive_counterexample:
  "totalForSelectedDate ([tenths 1] @ [tenths 2, tenths 3])
     = Fin (1351079888211149 / 2251799813685248)
   \<and> jadd (totalForSelectedDate [tenths 1]) (totalForSelectedDate [tenths 2, tenths 3])
     = Fin (5404319552844595 / 9007199254740992)
   \<and> totalForSelectedDate ([tenths 1] @ [tenths 2, tenths 3])
     \<noteq> jadd (totalForSelectedDate [tenths 1]) (totalForSelectedDate [tenths 2, tenths 3])"
  by (simp add: totalForSelectedDate_def tenths_amounts tenths_sums del: jadd.simps)

text \<open>
  Claim C5, amended. The total of no records is 0. The total of \<open>a @ b\<close> is what adding
  the amounts of \<open>b\<close>, one after the other, to the total of \<open>a\<close> gives; with a single
  record \<open>r\<close> for \<open>b\<close> that is the total of \<open>a\<close> plus the amount of \<open>r\<close>. And two adds
  on the same date with the amounts 10.00 and 5.50, at any clock readings, give the total
  15.5 for that date.
\<close>

theorem total_accumulates:
  "totalForSelectedDate [] = Fin 0
   \<and> totalForSelectedDate (a @ b)
       = foldl (\<lambda>sum e. jadd sum (amount e)) (totalForSelectedDate a) b
   \<and> totalForSelectedDate (a @ [r]) = jadd (totalForSelectedDate a) (amount r)
   \<and> totalForSelectedDate (expensesForSelectedDate
        (expenses (run [SetAmount (lit ''10.00''), Submit t1, SetAmount (lit ''5.50''), Submit t2]
           (initial_page d))) d) = Fin (31 / 2)"
proof (intro conjI)
  show "totalForSelectedDate [] = Fin 0" by (simp add: totalForSelectedDate_def)
  show "totalForSelectedDate (a @ b)
       = foldl (\<lambda>sum e. jadd sum (amount e)) (totalForSelectedDate a) b"
    by (simp add: totalForSelectedDate_def)
  show "totalForSelectedDate (a @ [r]) = jadd (totalForSelectedDate a) (amount r)"
    by (simp add: totalForSelectedDate_def)
  show "totalForSelectedDate (expensesForSelectedDate
        (expenses (run [SetAmount (lit ''10.00''), Submit t1, SetAmount (lit ''5.50''), Submit t2]
           (initial_page d))) d) = Fin (31 / 2)"
    unfolding scenario_expenses
    by (simp add: expensesForSelectedDate_def Array_sort_def totalForSelectedDate_def
        sums_scenario del: jadd.simps)
qed

lemma total_sample_a: "totalForSelectedDate [sample_a] = Fin 10"
  by code_simp

lemma add_sample_b: "jadd (Fin 10) (amount sample_b) = Fin (31 / 2)"
  by code_simp

theorem total_accumulates_witness:
  "totalForSelectedDate ([sample_a] @ [sample_b]) = Fin (31 / 2)
   \<and> totalForSelectedDate (expensesForSelectedDate
        (expenses (run [SetAmount (lit ''10.00''), Submit 1700000000000,
                        SetAmount (lit ''5.50''), Submit 1700000000001]
           (initial_page (lit ''2024-01-01'')))) (lit ''2024-01-01'')) = Fin (31 / 2)"
proof -
  note T = total_accumulates [of "[sample_a]" "[sample_b]" sample_b 1700000000000 1700000000001
      "lit ''2024-01-01''"]
  have "totalForSelectedDate ([sample_a] @ [sample_b])
          = jadd (totalForSelectedDate [sample_a]) (amount sample_b)"
    using T by blast
  then have "totalForSelectedDate ([sample_a] @ [sample_b]) = Fin (31 / 2)"
    by (simp only: total_sample_a add_sample_b)
  moreover have "totalForSelectedDate (expensesForSelectedDate
        (expenses (run [SetAmount (lit ''10.00''), Submit 1700000000000,
                        SetAmount (lit ''5.50''), Submit 1700000000001]
           (initial_page (lit ''2024-01-01'')))) (lit ''2024-01-01'')) = Fin (31 / 2)"
    using T by blast
  ultimately show ?thesis by (intro conjI)
qed

section \<open>Loading and saving\<close>

lemma load_cases:
  "load ls =
     (if readable ls then
        (case items ls STORAGE_KEY of
           Some (Json (JArr vs)) \<Rightarrow> Inr vs
         | _ \<Rightarrow> Inr [])
      else Inr [])"
  by (simp add: load_def load_try_def getItem_def JSON_parse_def
      split: option.splits slot_text.splits jsval.splits)

text \<open>
  Claim C7, as stated, fails: a slot holding the JSON array \<open>[1]\<close> does not parse as a
  sequence of values shaped like expense records, yet the load effect hands the array to
  \<open>setExpenses\<close> as it is, so the result is not the empty sequence.
\<close>

theorem load_unchecked_array_counterexample:
  "\<not> parses_as_expenses (Json (JArr [JNum (Fin 1)]))
   \<and> load (storage_with (Json (JArr [JNum (Fin 1)]))) = Inr [JNum (Fin 1)]
   \<and> load (storage_with (Json (JArr [JNum (Fin 1)]))) \<noteq> Inr []"
  by (simp add: load_cases storage_with_def empty_storage_def parses_as_expenses_def
      Expense_of_value_def)

text \<open>
  Claim C7, amended. The load effect never raises. It yields the empty sequence when the
  storage cannot be read, when the slot is absent, holds the empty string or a text that
  is not JSON, and when the text is JSON but not an array (an object, for example). When
  the text is a JSON array, it yields the elements of the array as they are, whatever
  their shape.
\<close>

theorem load_never_raises:
  "(\<exists>vs. load ls = Inr vs)
   \<and> (\<not> readable ls \<or> items ls STORAGE_KEY = None \<or> items ls STORAGE_KEY = Some Empty_text
        \<or> items ls STORAGE_KEY = Some Not_json \<longrightarrow> load ls = Inr [])
   \<and> (\<forall>v. items ls STORAGE_KEY = Some (Json v) \<and> (\<forall>vs. v \<noteq> JArr vs) \<longrightarrow> load ls = Inr [])
   \<and> (\<forall>vs. readable ls \<and> items ls STORAGE_KEY = Some (Json (JArr vs)) \<longrightarrow> load ls = Inr vs)"
  by (auto simp: load_cases split: option.splits slot_text.splits jsval.splits)

theorem load_never_raises_witness:
  "load empty_storage = Inr []
   \<and> load (storage_with Not_json) = Inr []
   \<and> load (storage_with (Json (JObj [(lit ''id'', JStr (lit ''1''))]))) = Inr []
   \<and> load (storage_with (Json (JArr [JNum (Fin 1)]))) = Inr [JNum (Fin 1)]"
proof -
  have 1: "items empty_storage STORAGE_KEY = None"
    by (simp add: empty_storage_def)
  have 2: "items (storage_with Not_json) STORAGE_KEY = Some Not_json"
    by (simp add: storage_with_def)
  have 3: "items (storage_with (Json (JObj [(lit ''id'', JStr (lit ''1''))]))) STORAGE_KEY
            = Some (Json (JObj [(lit ''id'', JStr (lit ''1''))]))
           \<and> (\<forall>vs. JObj [(lit ''id'', JStr (lit ''1''))] \<noteq> JArr vs)"
    by (simp add: storage_with_def)
  have 4: "readable (storage_with (Json (JArr [JNum (Fin 1)])))
           \<and> items (storage_with (Json (JArr [JNum (Fin 1)]))) STORAGE_KEY
               = Some (Json (JArr [JNum (Fin 1)]))"
    by (simp add: storage_with_def empty_storage_def)
  have "load empty_storage = Inr []"
    using load_never_raises [of empty_storage] 1 by blast
  moreover have "load (storage_with Not_json) = Inr []"
    using load_never_raises [of "storage_with Not_json"] 2 by blast
  moreover have "load (storage_with (Json (JObj [(lit ''id'', JStr (lit ''1''))]))) = Inr []"
    using load_never_raises [of "storage_with (Json (JObj [(lit ''id'', JStr (lit ''1''))]))"] 3
    by blast
  moreover have "load (storage_with (Json (JArr [JNum (Fin 1)]))) = Inr [JNum (Fin 1)]"
    using load_never_raises [of "storage_with (Json (JArr [JNum (Fin 1)]))"] 4 by blast
  ultimately show ?thesis by (intro conjI)
qed

text \<open>An expense object read back as a record is the record it was made from.\<close>

lemma Expense_of_value_inverse: "Expense_of_value (value_of_Expense e) = Some e"
  by (simp add: Expense_of_value_def value_of_Expense_def lit_def)

lemma as_json_Expense:
  "isFinite (amount e) \<Longrightarrow> as_json (value_of_Expense e) = value_of_Expense e"
  by (simp add: value_of_Expense_def)

text \<open>
  Claim C8. When the storage takes the write and can be read, and every amount is a
  finite number (as in every well-formed record), loading after saving \<open>records\<close> yields
  the expense objects of \<open>records\<close> in the same order, and these read back as the very
  records that were saved.
\<close>

theorem save_load_round_trip:
  assumes "readable ls" and "writable ls" and "list_all (\<lambda>e. isFinite (amount e)) es"
  shows "load (save es ls) = Inr (map value_of_Expense es)
         \<and> map Expense_of_value (map value_of_Expense es) = map Some es"
proof -
  have "map as_json (map value_of_Expense es) = map value_of_Expense es"
    using assms(3) by (induction es) (simp_all add: as_json_Expense)
  then have "load (save es ls) = Inr (map value_of_Expense es)"
    using assms(1,2)
    by (simp add: load_cases save_def setItem_def JSON_stringify_def)
  moreover have "map Expense_of_value (map value_of_Expense es) = map Some es"
    by (simp add: Expense_of_value_inverse)
  ultimately show ?thesis by simp
qed

theorem save_load_round_trip_witness:
  "load (save [sample_a, sample_b] (storage_with Not_json))
     = Inr [value_of_Expense sample_a, value_of_Expense sample_b]
   \<and> map Expense_of_value [value_of_Expense sample_a, value_of_Expense sample_b]
     = [Some sample_a, Some sample_b]"
proof -
  have r: "readable (storage_with Not_json)" and w: "writable (storage_with Not_json)"
    by (simp_all add: storage_with_def empty_storage_def)
  have f: "list_all (\<lambda>e. isFinite (amount e)) [sample_a, sample_b]"
    by (simp add: sample_a_def sample_b_def)
  show ?thesis
    using save_load_round_trip [OF r w f] by simp
qed

section \<open>The invariants of the store\<close>

lemma submit_times_append: "submit_times (evs @ evs') = submit_times evs @ submit_times evs'"
  by (induction evs rule: submit_times.induct) simp_all

lemma amount_rejected_or_cent_empty: "amount_rejected_or_cent []"
  by (simp add: amount_rejected_or_cent_def parseFloat_empty)

lemma page_invariant_mono: "page_invariant T st \<Longrightarrow> T \<subseteq> T' \<Longrightarrow> page_invariant T' st"
  unfolding page_invariant_def by (meson image_mono subset_trans)

lemma handleAdd_invariant:
  assumes inv: "page_invariant T st" and new: "now \<notin> T"
  shows "page_invariant (insert now T) (handleAdd now st)"
proof (cases "\<not> isFinite (parseFloat (form_amount st)) \<or> js_le (parseFloat (form_amount st)) (Fin 0)")
  case True
  then have "handleAdd now st = st" by (simp add: handleAdd_def)
  then show ?thesis using inv page_invariant_mono [of T st "insert now T"] by auto
next
  case False
  then obtain p where p: "parseFloat (form_amount st) = Fin p" and pos: "0 < p"
    by (cases "parseFloat (form_amount st)") auto
  from inv have "amount_rejected_or_cent (form_amount st)" by (simp add: page_invariant_def)
  with p pos have cent: "1 / 200 \<le> p" by (simp add: amount_rejected_or_cent_def)
  let ?r = "\<lparr>id' = String_of_time now, date = form_date st,
            amount = jdiv (Math_round (jmul (Fin p) (Fin 100))) (Fin 100),
            category = (if String_trim (form_category st) = [] then lit ''General''
                        else String_trim (form_category st)),
            note' = String_trim (form_note st)\<rparr>"
  have st': "handleAdd now st =
      st\<lparr>expenses := ?r # expenses st,
         selectedDate := (if form_date st = selectedDate st then selectedDate st else form_date st),
         form_amount := [], form_category := lit ''General'', form_note := [],
         form_date := selectedDate st\<rparr>"
    using p pos by (simp add: handleAdd_def resetForm_def Let_def)
  have fresh: "String_of_time now \<notin> set (map id' (expenses st))"
  proof
    assume "String_of_time now \<in> set (map id' (expenses st))"
    with inv have "String_of_time now \<in> String_of_time ` T" by (auto simp: page_invariant_def)
    then obtain t where "t \<in> T" "String_of_time now = String_of_time t" by auto
    with new show False using String_of_time_inj by blast
  qed
  have "store_invariant (?r # expenses st)"
    using inv fresh cents_positive [OF cent]
    by (simp add: page_invariant_def store_invariant_def)
  moreover have "set (map id' (?r # expenses st)) \<subseteq> String_of_time ` insert now T"
    using inv by (auto simp: page_invariant_def)
  ultimately show ?thesis
    using inv unfolding st' by (simp add: page_invariant_def amount_rejected_or_cent_empty)
qed

lemma handleDelete_invariant:
  assumes "page_invariant T st"
  shows "page_invariant T (handleDelete i st)"
proof -
  have "distinct (map id' (filter (\<lambda>e. id' e \<noteq> i) (expenses st)))"
    using assms by (simp add: page_invariant_def store_invariant_def distinct_map_filter)
  moreover have "list_all P (filter (\<lambda>e. id' e \<noteq> i) (expenses st))"
    if "list_all P (expenses st)" for P
    using that by (simp add: list_all_iff)
  ultimately show ?thesis
    using assms by (auto simp: page_invariant_def store_invariant_def handleDelete_def)
qed

lemma handle_invariant:
  assumes "page_invariant T st" and "well_formed_event ev"
    and "set (submit_times [ev]) \<inter> T = {}"
  shows "page_invariant (T \<union> set (submit_times [ev])) (handle ev st)"
proof (cases ev)
  case (Submit now)
  then have "now \<notin> T" using assms(3) by simp
  from handleAdd_invariant [OF assms(1) this] show ?thesis using Submit by simp
next
  case (Delete i)
  then show ?thesis using handleDelete_invariant [OF assms(1)] by simp
qed (use assms in \<open>simp_all add: page_invariant_def\<close>)

lemma run_invariant:
  assumes "valid_calendar_date today"
  shows "list_all well_formed_event evs \<Longrightarrow> distinct (submit_times evs) \<Longrightarrow>
         page_invariant (set (submit_times evs)) (run evs (initial_page today))"
proof (induction evs rule: rev_induct)
  case Nil
  then show ?case
    using assms
    by (simp add: run_def page_invariant_def initial_page_def store_invariant_def
        amount_rejected_or_cent_empty)
next
  case (snoc ev evs)
  from snoc.prems have wf: "list_all well_formed_event evs" "well_formed_event ev"
    and d: "distinct (submit_times evs)"
    and disj: "set (submit_times [ev]) \<inter> set (submit_times evs) = {}"
    by (auto simp: submit_times_append)
  from handle_invariant [OF snoc.IH [OF wf(1) d] wf(2) disj]
  show ?case by (simp add: run_snoc submit_times_append)
qed

text \<open>
  Claim C6, as stated, fails in each of its three parts. The amount field \<open>0.001\<close>
  passes the check \<open>parsedAmount <= 0\<close> and is then rounded to 0. Two submissions at the
  same clock reading get the same id. And \<open>handleAdd\<close> stores the date field as it is,
  the empty string included.
\<close>

theorem store_invariant_counterexample:
  "map amount (expenses (run [SetAmount (lit ''0.001''), Submit 1700000000000]
      (initial_page (lit ''2024-01-01'')))) = [Fin 0]
   \<and> \<not> store_invariant (expenses (run [SetAmount (lit ''0.001''), Submit 1700000000000]
      (initial_page (lit ''2024-01-01''))))
   \<and> map id' (expenses (run [SetAmount (lit ''5''), Submit 1700000000000,
                               SetAmount (lit ''5''), Submit 1700000000000]
      (initial_page (lit ''2024-01-01''))))
     = [lit ''1700000000000'', lit ''1700000000000'']
   \<and> \<not> store_invariant (expenses (run [SetAmount (lit ''5''), Submit 1700000000000,
                                        SetAmount (lit ''5''), Submit 1700000000000]
      (initial_page (lit ''2024-01-01''))))
   \<and> map date (expenses (run [SetDate [], SetAmount (lit ''5''), Submit 1700000000000]
      (initial_page (lit ''2024-01-01'')))) = [[]]
   \<and> \<not> store_invariant (expenses (run [SetDate [], SetAmount (lit ''5''), Submit 1700000000000]
      (initial_page (lit ''2024-01-01''))))"
proof -
  have 1: "expenses (run [SetAmount (lit ''0.001''), Submit 1700000000000]
      (initial_page (lit ''2024-01-01'')))
    = [\<lparr>id' = lit ''1700000000000'', date = lit ''2024-01-01'', amount = Fin 0,
        category = lit ''General'', note' = []\<rparr>]"
    by (simp add: run_simps parse_small cents_small String_of_sample_time
        del: jmul.simps jdiv.simps Math_round.simps)
  have 2: "expenses (run [SetAmount (lit ''5''), Submit 1700000000000,
                          SetAmount (lit ''5''), Submit 1700000000000]
      (initial_page (lit ''2024-01-01'')))
    = [\<lparr>id' = lit ''1700000000000'', date = lit ''2024-01-01'', amount = Fin 5,
        category = lit ''General'', note' = []\<rparr>,
       \<lparr>id' = lit ''1700000000000'', date = lit ''2024-01-01'', amount = Fin 5,
        category = lit ''General'', note' = []\<rparr>]"
    by (simp add: run_simps parse_small cents_small String_of_sample_time
        del: jmul.simps jdiv.simps Math_round.simps)
  have 3: "expenses (run [SetDate [], SetAmount (lit ''5''), Submit 1700000000000]
      (initial_page (lit ''2024-01-01'')))
    = [\<lparr>id' = lit ''1700000000000'', date = [], amount = Fin 5,
        category = lit ''General'', note' = []\<rparr>]"
    by (simp add: run_simps parse_small cents_small String_of_sample_time
        del: jmul.simps jdiv.simps Math_round.simps)
  have v: "\<not> valid_calendar_date []" by (simp add: valid_calendar_date_def)
  show ?thesis
    unfolding 1 2 3 using v by (simp add: store_invariant_def)
qed

text \<open>
  Claim C6, amended. Starting from the initial page with a valid date, after any sequence
  of events in which every date typed or selected is a valid calendar date, every amount
  field either is rejected or parses to at least 0.005, and the submissions are made at
  pairwise distinct clock readings, the store satisfies the invariants: the ids are
  pairwise distinct, every amount is strictly positive, and every date is a valid
  calendar date of the form \<open>YYYY-MM-DD\<close>.
\<close>

theorem reachable_store_invariant:
  assumes "valid_calendar_date today"
    and "list_all well_formed_event evs"
    and "distinct (submit_times evs)"
  shows "store_invariant (expenses (run evs (initial_page today)))"
  using run_invariant [OF assms] by (simp add: page_invariant_def)

theorem reachable_store_invariant_witness:
  "valid_calendar_date (lit ''2024-01-01'')
   \<and> list_all well_formed_event
        [SetAmount (lit ''10.00''), Submit 1700000000000, SetAmount (lit ''5.50''),
         Submit 1700000000001, Delete (lit ''1700000000000'')]
   \<and> distinct (submit_times
        [SetAmount (lit ''10.00''), Submit 1700000000000, SetAmount (lit ''5.50''),
         Submit 1700000000001, Delete (lit ''1700000000000'')])
   \<and> store_invariant (expenses (run
        [SetAmount (lit ''10.00''), Submit 1700000000000, SetAmount (lit ''5.50''),
         Submit 1700000000001, Delete (lit ''1700000000000'')]
        (initial_page (lit ''2024-01-01''))))"
proof -
  let ?evs = "[SetAmount (lit ''10.00''), Submit 1700000000000, SetAmount (lit ''5.50''),
         Submit 1700000000001, Delete (lit ''1700000000000'')]"
  have w: "list_all well_formed_event ?evs"
    by (simp add: amount_rejected_or_cent_def parse_scenario)
  have d: "distinct (submit_times ?evs)" by simp
  from reachable_store_invariant [OF valid_sample_date w d] valid_sample_date w d
  show ?thesis by (intro conjI)
qed

end
